theory Spec2Isabelle
  imports Main "HOL-Library.Sublist" "HOL-Library.AList"
begin

section \<open>Python text\<close>

text \<open>
  A Python \<^verbatim>\<open>str\<close> is a sequence of Unicode code points. A code point is a natural
  number here; \<open>str\<close> turns an (ASCII) literal of the script into such a sequence.
\<close>

type_synonym pystr = "nat list"

definition str :: "string \<Rightarrow> pystr" where
  "str s = map of_char s"

text \<open>
  \<^verbatim>\<open>\w\<close> in a \<^verbatim>\<open>str\<close> pattern: the ASCII letters, digits and the underscore, and
  beyond ASCII whatever the Unicode database of the running interpreter classifies as
  alphanumeric. That table is not part of the repository: it is the parameter
  \<open>alnum\<close> of everything below.
\<close>

definition is_word :: "(nat \<Rightarrow> bool) \<Rightarrow> nat \<Rightarrow> bool" where
  "is_word alnum c =
     (if c < 128
      then (48 \<le> c \<and> c \<le> 57) \<or> (65 \<le> c \<and> c \<le> 90) \<or> c = 95 \<or> (97 \<le> c \<and> c \<le> 122)
      else alnum c)"

section \<open>The fragment of \<^verbatim>\<open>re\<close> the script uses\<close>

text \<open>
  The two patterns of the script are built from literal text, one greedy repetition of a
  character class (\<^verbatim>\<open>\w+\<close>), one capturing group and concatenation.
\<close>

datatype regex =
    Lit pystr
  | Plus "nat \<Rightarrow> bool"
  | Group regex
  | Seq regex regex

text \<open>
  A backtracking matcher tries the alternatives of a pattern in a fixed order and
  answers with the first that succeeds. \<open>all_matches r s\<close> lists, in that order, every
  way \<open>r\<close> matches a prefix of \<open>s\<close>: the text left over and the texts captured by the
  groups (in the order of their opening parentheses). A greedy repetition tries the
  longest run first and gives back one character at a time.
\<close>

fun plus_matches :: "(nat \<Rightarrow> bool) \<Rightarrow> pystr \<Rightarrow> pystr list" where
  "plus_matches p [] = []"
| "plus_matches p (c # cs) = (if p c then plus_matches p cs @ [cs] else [])"

primrec all_matches :: "regex \<Rightarrow> pystr \<Rightarrow> (pystr \<times> pystr list) list" where
  "all_matches (Lit l) s = (if prefix l s then [(drop (length l) s, [])] else [])"
| "all_matches (Plus p) s = map (\<lambda>rest. (rest, [])) (plus_matches p s)"
| "all_matches (Group r) s =
     map (\<lambda>(rest, gs). (rest, take (length s - length rest) s # gs)) (all_matches r s)"
| "all_matches (Seq r1 r2) s =
     concat (map (\<lambda>(rest1, gs1). map (\<lambda>(rest2, gs2). (rest2, gs1 @ gs2)) (all_matches r2 rest1))
                 (all_matches r1 s))"

text \<open>
  A match object: the matched text (group 0) and the captured groups 1, 2, ...
  \<open>re_match r s\<close> is \<^verbatim>\<open>pattern.match\<close> at the start of \<open>s\<close>, together with the text
  after the match.
\<close>

type_synonym match = "pystr \<times> pystr list"

definition re_match :: "regex \<Rightarrow> pystr \<Rightarrow> (match \<times> pystr) option" where
  "re_match r s =
     (case all_matches r s of
        [] \<Rightarrow> None
      | (rest, gs) # _ \<Rightarrow> Some ((take (length s - length rest) s, gs), rest))"

datatype error =
    IndexError
  | FileNotFoundError
  | IsADirectoryError
  | PermissionError
  | OSError

text \<open>\<^verbatim>\<open>match.group(n)\<close> raises \<^verbatim>\<open>IndexError\<close> for a group the pattern does not have.\<close>

fun group :: "match \<Rightarrow> nat \<Rightarrow> error + pystr" where
  "group (whole, gs) 0 = Inr whole"
| "group (whole, gs) (Suc n) = (if n < length gs then Inr (gs ! n) else Inl IndexError)"

text \<open>
  \<^verbatim>\<open>re.sub\<close> scans the text from left to right. Where the pattern matches, the match is
  taken and the scan goes on behind it; elsewhere one character is kept. (After an empty
  match the next character is kept, as Python 3.7 does; neither pattern of the
  script matches the empty text.)
\<close>

datatype piece = Kept nat | Matched match

function re_scan :: "regex \<Rightarrow> pystr \<Rightarrow> piece list" where
  "re_scan r s =
     (case re_match r s of
        None \<Rightarrow> (case s of [] \<Rightarrow> [] | c # cs \<Rightarrow> Kept c # re_scan r cs)
      | Some (m, rest) \<Rightarrow>
          if length rest < length s then Matched m # re_scan r rest
          else (case s of [] \<Rightarrow> [Matched m] | c # cs \<Rightarrow> Matched m # Kept c # re_scan r cs))"
  by pat_completeness auto
termination
  by (relation "measure (\<lambda>(r, s). length s)") auto

text \<open>
  The replacement is called on each match in turn and the results are joined with the
  kept text; an exception of the replacement ends the call.
\<close>

fun join_pieces :: "(match \<Rightarrow> error + pystr) \<Rightarrow> piece list \<Rightarrow> error + pystr" where
  "join_pieces repl [] = Inr []"
| "join_pieces repl (Kept c # ps) =
     (case join_pieces repl ps of Inl e \<Rightarrow> Inl e | Inr t \<Rightarrow> Inr (c # t))"
| "join_pieces repl (Matched m # ps) =
     (case repl m of
        Inl e \<Rightarrow> Inl e
      | Inr new \<Rightarrow> (case join_pieces repl ps of Inl e \<Rightarrow> Inl e | Inr t \<Rightarrow> Inr (new @ t)))"

definition re_sub :: "regex \<Rightarrow> (match \<Rightarrow> error + pystr) \<Rightarrow> pystr \<Rightarrow> error + pystr" where
  "re_sub r repl s = join_pieces repl (re_scan r s)"

text \<open>
  A replacement given as a string is a template; one without backslashes, as
  \<^verbatim>\<open>replacement1\<close>, stands for itself.
\<close>

definition template :: "pystr \<Rightarrow> match \<Rightarrow> error + pystr" where
  "template t m = Inr t"

section \<open>\<^verbatim>\<open>fix_id_parsing\<close>\<close>

definition pattern1 :: regex where
  "pattern1 = Lit (str ''const { id } = req.params;'')"

definition replacement1 :: pystr where
  "replacement1 = str (''const id = parseInt(req.params.id);\<newline>'' @
     ''    if (isNaN(id)) {\<newline>'' @
     ''      return res.status(400).json({ success: false, error: '' @ [CHR 0x27] @
       ''Invalid ID'' @ [CHR 0x27] @ '' });\<newline>'' @
     ''    }'')"

definition pattern2 :: "(nat \<Rightarrow> bool) \<Rightarrow> regex" where
  "pattern2 alnum =
     Seq (Lit (str ''const ''))
       (Seq (Group (Seq (Plus (is_word alnum)) (Lit (str ''Id''))))
          (Lit (str '' = req.params.id;'')))"

definition replacement2 :: "match \<Rightarrow> error + pystr" where
  "replacement2 m =
     (case group m 1 of
        Inl e \<Rightarrow> Inl e
      | Inr var_name \<Rightarrow>
          Inr (str ''const '' @ var_name @ str '' = parseInt(req.params.id);\<newline>'' @
               str ''    if (isNaN('' @ var_name @ str '')) {\<newline>'' @
               str (''      return res.status(400).json({ success: false, error: '' @ [CHR 0x27] @
                 ''Invalid ID'' @ [CHR 0x27] @ '' });\<newline>'') @
               str ''    }''))"

definition fix_id_parsing :: "(nat \<Rightarrow> bool) \<Rightarrow> pystr \<Rightarrow> error + pystr" where
  "fix_id_parsing alnum content =
     (case re_sub pattern1 (template replacement1) content of
        Inl e \<Rightarrow> Inl e
      | Inr content1 \<Rightarrow> re_sub (pattern2 alnum) replacement2 content1)"

text \<open>\<^verbatim>\<open>re.search\<close>: the first match, scanning from the left.\<close>

fun re_search :: "regex \<Rightarrow> pystr \<Rightarrow> match option" where
  "re_search r [] = (case re_match r [] of None \<Rightarrow> None | Some (m, rest) \<Rightarrow> Some m)"
| "re_search r (c # cs) =
     (case re_match r (c # cs) of None \<Rightarrow> re_search r cs | Some (m, rest) \<Rightarrow> Some m)"

section \<open>The rules as the specification words them\<close>

text \<open>
  The replacement of both rules: the variable is bound to the parsed path parameter, and
  a guard returns a 400 response when the parse gave \<^verbatim>\<open>NaN\<close>.
\<close>

definition guarded :: "pystr \<Rightarrow> pystr" where
  "guarded v =
     str ''const '' @ v @ str '' = parseInt(req.params.id);'' @ [10] @
     str ''    if (isNaN('' @ v @ str '')) {'' @ [10] @
     str ''      return res.status(400).json({ success: false, error: '' @ [39] @
     str ''Invalid ID'' @ [39] @ str '' });'' @ [10] @
     str ''    }''"

text \<open>
  An occurrence of a rule at the start of a text: the replacement and the text behind the
  occurrence. Rule 1 is the literal destructuring of \<^verbatim>\<open>id\<close>. Rule 2 is the assignment,
  from the path parameter \<^verbatim>\<open>id\<close>, of a variable whose name is one or more word
  characters followed by \<^verbatim>\<open>Id\<close>.
\<close>

definition rule1_occ :: "pystr \<Rightarrow> (pystr \<times> pystr) option" where
  "rule1_occ s =
     (if prefix (str ''const { id } = req.params;'') s
      then Some (guarded (str ''id''), drop 26 s) else None)"

definition rule2_occ :: "(nat \<Rightarrow> bool) \<Rightarrow> pystr \<Rightarrow> (pystr \<times> pystr) option" where
  "rule2_occ alnum s =
     (if prefix (str ''const '') s
      then (let name = takeWhile (is_word alnum) (drop 6 s);
                after = dropWhile (is_word alnum) (drop 6 s)
            in if 2 < length name \<and> suffix (str ''Id'') name \<and>
                  prefix (str '' = req.params.id;'') after
               then Some (guarded name, drop 17 after) else None)
      else None)"

text \<open>Replacing all occurrences, leftmost first, none overlapping another.\<close>

fun replace_all :: "(pystr \<Rightarrow> (pystr \<times> pystr) option) \<Rightarrow> pystr \<Rightarrow> pystr" where
  "replace_all occ [] = []"
| "replace_all occ (c # cs) =
     (case occ (c # cs) of
        None \<Rightarrow> c # replace_all occ cs
      | Some (new, rest) \<Rightarrow>
          if length rest \<le> length cs then new @ replace_all occ rest
          else c # replace_all occ cs)"

definition transform :: "(nat \<Rightarrow> bool) \<Rightarrow> pystr \<Rightarrow> pystr" where
  "transform alnum x = replace_all (rule2_occ alnum) (replace_all rule1_occ x)"

section \<open>The script: the files and the loop over them\<close>

text \<open>
  The file system, as far as the script can see it, on a POSIX host. The directory
  entries are paths (relative to the working directory, in the order the operating
  system lists them); an entry is a directory, a name of a file, or a symbolic link to a
  path. Files are numbered: two entries with the same number are hard links of one file,
  and so are two paths that reach one file through a linked directory. A file has its
  decoded text and whether it can be opened for reading (and decoded) and for writing.
\<close>

datatype node = Dir | File nat | Link string

datatype inode = Data bool bool pystr

type_synonym fs = "(string \<times> node) list"

type_synonym store = "(nat \<times> inode) list"

text \<open>
  Opening a path follows symbolic links, at most \<open>symloop_max\<close> of them: the result is
  the path reached and what is there, if anything.
\<close>

definition symloop_max :: nat where
  "symloop_max = 40"

fun resolve :: "fs \<Rightarrow> nat \<Rightarrow> string \<Rightarrow> error + string \<times> node option" where
  "resolve entries 0 p =
     (case map_of entries p of Some (Link t) \<Rightarrow> Inl OSError | other \<Rightarrow> Inr (p, other))"
| "resolve entries (Suc n) p =
     (case map_of entries p of Some (Link t) \<Rightarrow> resolve entries n t | other \<Rightarrow> Inr (p, other))"

text \<open>The file a path leads to, if it leads to one.\<close>

definition target :: "fs \<Rightarrow> string \<Rightarrow> nat option" where
  "target entries p =
     (case resolve entries symloop_max p of Inr (q, Some (File i)) \<Rightarrow> Some i | _ \<Rightarrow> None)"

text \<open>
  \<^verbatim>\<open>glob.glob("src/routes/*.ts")\<close>: the entries of the directory \<^verbatim>\<open>src/routes\<close> itself
  whose name ends in \<^verbatim>\<open>.ts\<close> and does not start with a dot, as paths, whatever kind of
  entry they are; nothing when \<^verbatim>\<open>src/routes\<close> is not (or does not lead to) a directory.
\<close>

definition routes_dir :: string where
  "routes_dir = ''src/routes''"

definition in_routes_ts :: "string \<Rightarrow> bool" where
  "in_routes_ts p =
     (prefix (routes_dir @ ''/'') p \<and>
      (let name = drop (length routes_dir + 1) p
       in CHR ''/'' \<notin> set name \<and> suffix ''.ts'' name \<and> \<not> prefix ''.'' name))"

definition isdir :: "fs \<Rightarrow> string \<Rightarrow> bool" where
  "isdir entries p = (case resolve entries symloop_max p of Inr (q, Some Dir) \<Rightarrow> True | _ \<Rightarrow> False)"

definition glob_ts :: "fs \<Rightarrow> string list" where
  "glob_ts entries =
     (if isdir entries routes_dir then filter in_routes_ts (map fst entries) else [])"

text \<open>
  \<^verbatim>\<open>open(filepath, 'r')\<close> and \<^verbatim>\<open>f.read()\<close>: text mode translates every line ending
  (\<^verbatim>\<open>\r\n\<close> or \<^verbatim>\<open>\r\<close>) to \<^verbatim>\<open>\n\<close>.
\<close>

fun universal_newlines :: "pystr \<Rightarrow> pystr" where
  "universal_newlines [] = []"
| "universal_newlines [c] = (if c = 13 then [10] else [c])"
| "universal_newlines (c # d # s) =
     (if c = 13 \<and> d = 10 then 10 # universal_newlines s
      else if c = 13 then 10 # universal_newlines (d # s)
      else c # universal_newlines (d # s))"

definition read_text :: "fs \<Rightarrow> store \<Rightarrow> string \<Rightarrow> error + pystr" where
  "read_text entries inodes p =
     (case resolve entries symloop_max p of
        Inl e \<Rightarrow> Inl e
      | Inr (q, None) \<Rightarrow> Inl FileNotFoundError
      | Inr (q, Some Dir) \<Rightarrow> Inl IsADirectoryError
      | Inr (q, Some (Link t)) \<Rightarrow> Inl OSError
      | Inr (q, Some (File i)) \<Rightarrow>
          (case map_of inodes i of
             None \<Rightarrow> Inl FileNotFoundError
           | Some (Data readable writable content) \<Rightarrow>
               if readable then Inr (universal_newlines content) else Inl PermissionError))"

text \<open>
  \<^verbatim>\<open>open(filepath, 'w')\<close> and \<^verbatim>\<open>f.write(content)\<close>: the file the path leads to is
  truncated and rewritten, under all its names; where the path leads to nothing, a new
  file is created there.
\<close>

definition fresh :: "store \<Rightarrow> nat" where
  "fresh inodes = Suc (fold max (map fst inodes) 0)"

definition write_text :: "fs \<Rightarrow> store \<Rightarrow> string \<Rightarrow> pystr \<Rightarrow> error + fs \<times> store" where
  "write_text entries inodes p content =
     (case resolve entries symloop_max p of
        Inl e \<Rightarrow> Inl e
      | Inr (q, None) \<Rightarrow>
          Inr (entries @ [(q, File (fresh inodes))],
               inodes @ [(fresh inodes, Data True True content)])
      | Inr (q, Some Dir) \<Rightarrow> Inl IsADirectoryError
      | Inr (q, Some (Link t)) \<Rightarrow> Inl OSError
      | Inr (q, Some (File i)) \<Rightarrow>
          (case map_of inodes i of
             None \<Rightarrow> Inl FileNotFoundError
           | Some (Data readable writable old) \<Rightarrow>
               if writable then Inr (entries, AList.update i (Data readable writable content) inodes)
               else Inl PermissionError))"

text \<open>What a file is apart from the text it holds.\<close>

fun skeleton :: "inode \<Rightarrow> inode" where
  "skeleton (Data readable writable content) = Data readable writable []"

text \<open>The lines the script prints, and the state it runs in.\<close>

datatype line = Processing string | Fixed string | No_changes string | Done

record world =
  files :: fs
  store :: store
  written :: "string list"
  stdout :: "line list"

text \<open>
  The body of the loop. An exception ends the run: the result is the state reached and
  the exception, if any.
\<close>

definition process_file :: "(nat \<Rightarrow> bool) \<Rightarrow> world \<Rightarrow> string \<Rightarrow> world \<times> error option" where
  "process_file alnum w filepath =
     (let w1 = w\<lparr>stdout := stdout w @ [Processing filepath]\<rparr> in
      case read_text (files w1) (store w1) filepath of
        Inl e \<Rightarrow> (w1, Some e)
      | Inr original \<Rightarrow>
          (case fix_id_parsing alnum original of
             Inl e \<Rightarrow> (w1, Some e)
           | Inr content \<Rightarrow>
               if content \<noteq> original then
                 (case write_text (files w1) (store w1) filepath content of
                    Inl e \<Rightarrow> (w1, Some e)
                  | Inr (files', store') \<Rightarrow>
                      (w1\<lparr>files := files', store := store', written := written w1 @ [filepath],
                          stdout := stdout w1 @ [Fixed filepath]\<rparr>, None))
               else (w1\<lparr>stdout := stdout w1 @ [No_changes filepath]\<rparr>, None)))"

fun run_loop :: "(nat \<Rightarrow> bool) \<Rightarrow> world \<Rightarrow> string list \<Rightarrow> world \<times> error option" where
  "run_loop alnum w [] = (w, None)"
| "run_loop alnum w (filepath # rest) =
     (case process_file alnum w filepath of
        (w', Some e) \<Rightarrow> (w', Some e)
      | (w', None) \<Rightarrow> run_loop alnum w' rest)"

definition main :: "(nat \<Rightarrow> bool) \<Rightarrow> world \<Rightarrow> world \<times> error option" where
  "main alnum w =
     (case run_loop alnum w (glob_ts (files w)) of
        (w', Some e) \<Rightarrow> (w', Some e)
      | (w', None) \<Rightarrow> (w'\<lparr>stdout := stdout w' @ [Done]\<rparr>, None))"

section \<open>Notions for the proofs\<close>

text \<open>
  Every occurrence of either rule starts with \<^verbatim>\<open>const\<close>, a space and a character other
  than \<^verbatim>\<open>=\<close>, and ends at its only semicolon; it is replaced by the guarded binding of
  a name without space, parenthesis or semicolon. A rule with these properties, whose
  occurrences do not depend on the text behind them, is called tidy. \<open>no_start t follow\<close>
  says that no occurrence starts inside \<open>t\<close> when \<open>follow\<close> comes behind it.
\<close>

definition starts_const :: "pystr \<Rightarrow> bool" where
  "starts_const s \<longleftrightarrow> (\<exists>x r. s = 99 # 111 # 110 # 115 # 116 # 32 # x # r \<and> x \<noteq> 61)"

definition bare :: "pystr \<Rightarrow> bool" where
  "bare v \<longleftrightarrow> 32 \<notin> set v \<and> 40 \<notin> set v \<and> 41 \<notin> set v \<and> 59 \<notin> set v"

definition tidy :: "(pystr \<Rightarrow> (pystr \<times> pystr) option) \<Rightarrow> bool" where
  "tidy occ \<longleftrightarrow>
     (\<forall>s new rest. occ s = Some (new, rest) \<longrightarrow>
        (\<exists>m0 v. s = m0 @ 59 # rest \<and> 59 \<notin> set m0 \<and> 40 \<notin> set m0 \<and> starts_const m0 \<and>
           new = guarded v \<and> bare v \<and>
           (\<forall>rest'. occ (m0 @ 59 # rest') = Some (new, rest'))))"

definition no_start :: "pystr \<Rightarrow> pystr \<Rightarrow> bool" where
  "no_start t follow \<longleftrightarrow>
     (\<forall>t2 b. t2 \<noteq> [] \<longrightarrow> suffix t2 t \<longrightarrow> \<not> starts_const (t2 @ follow @ b))"

section \<open>The matcher and the scan\<close>

declare re_scan.simps [simp del]

lemma re_scan_Nil: "re_match r [] = None \<Longrightarrow> re_scan r [] = []"
  by (subst re_scan.simps) simp

lemma re_scan_None: "re_match r (c # cs) = None \<Longrightarrow> re_scan r (c # cs) = Kept c # re_scan r cs"
  by (subst re_scan.simps) simp

lemma re_scan_Some:
  "re_match r s = Some (m, rest) \<Longrightarrow> length rest < length s \<Longrightarrow>
   re_scan r s = Matched m # re_scan r rest"
  by (subst re_scan.simps) simp

lemma plus_matches_iff:
  "rest \<in> set (plus_matches p s) \<longleftrightarrow> (\<exists>w. w \<noteq> [] \<and> (\<forall>c\<in>set w. p c) \<and> s = w @ rest)"
proof (induction s)
  case Nil
  then show ?case by simp
next
  case (Cons c cs)
  show ?case
  proof
    assume "rest \<in> set (plus_matches p (c # cs))"
    then have pc: "p c" and "rest \<in> set (plus_matches p cs) \<or> rest = cs"
      by (auto split: if_splits)
    then show "\<exists>w. w \<noteq> [] \<and> (\<forall>c\<in>set w. p c) \<and> c # cs = w @ rest"
    proof (elim disjE)
      assume "rest \<in> set (plus_matches p cs)"
      then obtain w where "w \<noteq> []" "\<forall>c\<in>set w. p c" "cs = w @ rest"
        using Cons.IH by blast
      then show ?thesis using pc by (intro exI [of _ "c # w"]) simp
    next
      assume "rest = cs"
      then show ?thesis using pc by (intro exI [of _ "[c]"]) simp
    qed
  next
    assume "\<exists>w. w \<noteq> [] \<and> (\<forall>c\<in>set w. p c) \<and> c # cs = w @ rest"
    then obtain w where w: "w \<noteq> []" "\<forall>c\<in>set w. p c" "c # cs = w @ rest" by blast
    then obtain w' where w': "w = c # w'" by (cases w) auto
    show "rest \<in> set (plus_matches p (c # cs))"
    proof (cases "w' = []")
      case True
      then show ?thesis using w w' by simp
    next
      case False
      then have "rest \<in> set (plus_matches p cs)" using w w' Cons.IH by auto
      then show ?thesis using w w' by simp
    qed
  qed
qed

lemma in_Lit: "(rest, gs) \<in> set (all_matches (Lit l) s) \<longleftrightarrow> s = l @ rest \<and> gs = []"
  by (auto simp: prefix_def)

lemma in_Plus:
  "(rest, gs) \<in> set (all_matches (Plus p) s) \<longleftrightarrow>
     gs = [] \<and> (\<exists>w. w \<noteq> [] \<and> (\<forall>c\<in>set w. p c) \<and> s = w @ rest)"
  by (auto simp: plus_matches_iff)

lemma in_Seq:
  "(rest, gs) \<in> set (all_matches (Seq a b) s) \<longleftrightarrow>
     (\<exists>mid g1 g2. (mid, g1) \<in> set (all_matches a s) \<and> (rest, g2) \<in> set (all_matches b mid) \<and>
        gs = g1 @ g2)"
  by force

lemma in_Group:
  "(rest, gs) \<in> set (all_matches (Group r) s) \<longleftrightarrow>
     (\<exists>g. (rest, g) \<in> set (all_matches r s) \<and> gs = take (length s - length rest) s # g)"
  by force

lemma all_matches_pattern2:
  "(rest, gs) \<in> set (all_matches (pattern2 uw) s) \<longleftrightarrow>
     (\<exists>w. w \<noteq> [] \<and> (\<forall>c\<in>set w. is_word uw c) \<and>
          s = str ''const '' @ w @ str ''Id'' @ str '' = req.params.id;'' @ rest \<and>
          gs = [w @ str ''Id''])"
  unfolding pattern2_def in_Seq in_Group in_Lit in_Plus
  by (auto simp: str_def)


section \<open>Both patterns, and the rules they implement\<close>

lemma is_word_ascii [simp]:
  "is_word uw 73" "is_word uw 100" "\<not> is_word uw 32" "\<not> is_word uw 40" "\<not> is_word uw 41"
  "\<not> is_word uw 59" "\<not> is_word uw 61" "\<not> is_word uw 123" "\<not> is_word uw 36"
  by (simp_all add: is_word_def)

lemma takeWhile_stop:
  "\<forall>c\<in>set w. P c \<Longrightarrow> \<not> P x \<Longrightarrow> takeWhile P (w @ x # t) = w"
  by (simp add: takeWhile_append2)

lemma dropWhile_stop:
  "\<forall>c\<in>set w. P c \<Longrightarrow> \<not> P x \<Longrightarrow> dropWhile P (w @ x # t) = x # t"
  by (simp add: dropWhile_append2)

lemma split_unique:
  assumes "w @ x # t = w' @ x' # t'" "\<forall>c\<in>set w. P c" "\<forall>c\<in>set w'. P c" "\<not> P x" "\<not> P x'"
  shows "w = w' \<and> x = x' \<and> t = t'"
proof -
  have "takeWhile P (w @ x # t) = w" "takeWhile P (w' @ x' # t') = w'"
    using assms(2-5) by (simp_all add: takeWhile_stop)
  then have "w = w'" by (metis assms(1))
  then show ?thesis using assms(1) by simp
qed

lemma rule2_occ_iff:
  "rule2_occ uw s = Some (new, rest) \<longleftrightarrow>
     (\<exists>w. w \<noteq> [] \<and> (\<forall>c\<in>set w. is_word uw c) \<and>
          s = str ''const '' @ w @ str ''Id'' @ str '' = req.params.id;'' @ rest \<and>
          new = guarded (w @ str ''Id''))"
proof
  assume occ: "rule2_occ uw s = Some (new, rest)"
  define t where "t = drop 6 s"
  define name where "name = takeWhile (is_word uw) t"
  define after where "after = dropWhile (is_word uw) t"
  from occ have pre: "prefix (str ''const '') s"
    by (auto simp: rule2_occ_def split: if_splits)
  then have s: "s = str ''const '' @ t"
    by (auto simp: prefix_def t_def str_def)
  from occ pre have c: "2 < length name" "suffix (str ''Id'') name"
      "prefix (str '' = req.params.id;'') after" and new: "new = guarded name"
      and rest: "rest = drop 17 after"
    by (auto simp: rule2_occ_def Let_def name_def after_def t_def split: if_splits)
  from c(2) obtain w where w: "name = w @ str ''Id''" by (auto simp: suffix_def)
  have wne: "w \<noteq> []" using c(1) w by (auto simp: str_def)
  have "\<forall>c\<in>set name. is_word uw c" unfolding name_def by (auto dest: set_takeWhileD)
  then have ww: "\<forall>c\<in>set w. is_word uw c" using w by simp
  from c(3) have after: "after = str '' = req.params.id;'' @ rest"
    by (auto simp: prefix_def rest str_def)
  have "t = name @ after" by (simp add: name_def after_def)
  then show "\<exists>w. w \<noteq> [] \<and> (\<forall>c\<in>set w. is_word uw c) \<and>
          s = str ''const '' @ w @ str ''Id'' @ str '' = req.params.id;'' @ rest \<and>
          new = guarded (w @ str ''Id'')"
    using s w wne ww after new by auto
next
  assume "\<exists>w. w \<noteq> [] \<and> (\<forall>c\<in>set w. is_word uw c) \<and>
          s = str ''const '' @ w @ str ''Id'' @ str '' = req.params.id;'' @ rest \<and>
          new = guarded (w @ str ''Id'')"
  then obtain w where w: "w \<noteq> []" "\<forall>c\<in>set w. is_word uw c"
      "s = str ''const '' @ w @ str ''Id'' @ str '' = req.params.id;'' @ rest"
      "new = guarded (w @ str ''Id'')" by blast
  have d: "drop 6 s = (w @ str ''Id'') @ 32 # (str ''= req.params.id;'' @ rest)"
    using w(3) by (simp add: str_def)
  have all: "\<forall>c\<in>set (w @ str ''Id''). is_word uw c" using w(2) by (simp add: str_def)
  have tw: "takeWhile (is_word uw) (drop 6 s) = w @ str ''Id''"
    unfolding d using all by (rule takeWhile_stop) simp
  have dw: "dropWhile (is_word uw) (drop 6 s) = 32 # (str ''= req.params.id;'' @ rest)"
    unfolding d using all by (rule dropWhile_stop) simp
  have pre: "prefix (str ''const '') s" using w(3) by (simp add: prefix_def)
  show "rule2_occ uw s = Some (new, rest)"
    unfolding rule2_occ_def Let_def tw dw using pre w(1,4)
    by (simp add: str_def suffix_def)
qed


lemma re_match_pattern1:
  "re_match pattern1 s =
     (if prefix (str ''const { id } = req.params;'') s
      then Some ((str ''const { id } = req.params;'', []), drop 26 s) else None)"
  by (auto simp: re_match_def pattern1_def prefix_def str_def)

lemma re_match_in:
  "re_match r s = Some ((m, gs), rest) \<Longrightarrow> (rest, gs) \<in> set (all_matches r s)"
  by (auto simp: re_match_def split: list.splits)

lemma re_match_pattern2_None:
  assumes "rule2_occ uw s = None"
  shows "re_match (pattern2 uw) s = None"
proof (cases "all_matches (pattern2 uw) s")
  case Nil
  then show ?thesis by (simp add: re_match_def)
next
  case (Cons a as)
  obtain rest gs where a: "a = (rest, gs)" by (cases a)
  then have "(rest, gs) \<in> set (all_matches (pattern2 uw) s)" using Cons by simp
  then have "rule2_occ uw s \<noteq> None"
    unfolding all_matches_pattern2 using rule2_occ_iff [of uw s _ rest] by auto
  then show ?thesis using assms by simp
qed

lemma re_match_pattern2_Some:
  assumes "rule2_occ uw s = Some (new, rest)"
  shows "\<exists>m g. re_match (pattern2 uw) s = Some ((m, [g]), rest) \<and> new = guarded g"
proof -
  from assms obtain w where w: "w \<noteq> []" "\<forall>c\<in>set w. is_word uw c"
      "s = str ''const '' @ w @ str ''Id'' @ str '' = req.params.id;'' @ rest"
      "new = guarded (w @ str ''Id'')"
    unfolding rule2_occ_iff by blast
  then have "(rest, [w @ str ''Id'']) \<in> set (all_matches (pattern2 uw) s)"
    unfolding all_matches_pattern2 by blast
  then obtain a as where Cons: "all_matches (pattern2 uw) s = a # as"
    by (cases "all_matches (pattern2 uw) s") auto
  obtain rest' gs' where a: "a = (rest', gs')" by (cases a)
  then have "(rest', gs') \<in> set (all_matches (pattern2 uw) s)" using Cons by simp
  then obtain w' where w': "w' \<noteq> []" "\<forall>c\<in>set w'. is_word uw c"
      "s = str ''const '' @ w' @ str ''Id'' @ str '' = req.params.id;'' @ rest'"
      "gs' = [w' @ str ''Id'']"
    unfolding all_matches_pattern2 by blast
  have "(w @ str ''Id'') @ 32 # (str ''= req.params.id;'' @ rest) =
        (w' @ str ''Id'') @ 32 # (str ''= req.params.id;'' @ rest')"
    using w(3) w'(3) by (simp add: str_def)
  then have "w @ str ''Id'' = w' @ str ''Id'' \<and> (32::nat) = 32 \<and>
        str ''= req.params.id;'' @ rest = str ''= req.params.id;'' @ rest'"
    by (rule split_unique [where P = "is_word uw"]) (use w(2) w'(2) in \<open>simp_all add: str_def\<close>)
  then have "w = w'" "rest = rest'" by simp_all
  then show ?thesis using Cons a w'(4) w(4) by (simp add: re_match_def)
qed

lemma re_sub_replace_all:
  assumes "\<And>s. occ s = None \<Longrightarrow> re_match r s = None"
    and "\<And>s new rest. occ s = Some (new, rest) \<Longrightarrow>
        length rest < length s \<and> (\<exists>m. re_match r s = Some (m, rest) \<and> repl m = Inr new)"
  shows "re_sub r repl s = Inr (replace_all occ s)"
  using assms
proof (induction occ s rule: replace_all.induct)
  case (1 occ)
  have "occ [] = None" using "1.prems"(2) [of "[]"] by (cases "occ []") auto
  then show ?case using "1.prems"(1) by (simp add: re_sub_def re_scan_Nil)
next
  case (2 occ c cs)
  note none = "2.prems"(1) and some = "2.prems"(2)
  show ?case
  proof (cases "occ (c # cs)")
    case None
    have "re_sub r repl cs = Inr (replace_all occ cs)"
      using "2.IH"(1) [OF None] none some by blast
    then show ?thesis using None none [OF None] by (simp add: re_sub_def re_scan_None)
  next
    case (Some a)
    obtain new rest where a: "a = (new, rest)" by (cases a)
    from some [of "c # cs" new rest] Some a obtain m where
      m: "length rest \<le> length cs" "re_match r (c # cs) = Some (m, rest)" "repl m = Inr new"
      by auto
    have "re_sub r repl rest = Inr (replace_all occ rest)"
      using "2.IH"(2) [OF Some [unfolded a] refl m(1)] none some by blast
    then show ?thesis using m Some a
      by (simp add: re_sub_def re_scan_Some)
  qed
qed

lemma replacement1_guarded: "replacement1 = guarded (str ''id'')"
  by (simp add: replacement1_def guarded_def str_def)

lemma replacement2_guarded: "replacement2 (m, [g]) = Inr (guarded g)"
  by (simp add: replacement2_def guarded_def str_def)

lemma re_sub_rule1: "re_sub pattern1 (template replacement1) s = Inr (replace_all rule1_occ s)"
proof (rule re_sub_replace_all)
  fix s assume "rule1_occ s = None"
  then show "re_match pattern1 s = None"
    by (simp add: rule1_occ_def re_match_pattern1 split: if_splits)
next
  fix s new rest assume "rule1_occ s = Some (new, rest)"
  then show "length rest < length s \<and>
       (\<exists>m. re_match pattern1 s = Some (m, rest) \<and> template replacement1 m = Inr new)"
    by (auto simp: rule1_occ_def re_match_pattern1 template_def replacement1_guarded prefix_def
          str_def split: if_splits)
qed

lemma re_sub_rule2: "re_sub (pattern2 uw) replacement2 s = Inr (replace_all (rule2_occ uw) s)"
proof (rule re_sub_replace_all)
  fix s assume "rule2_occ uw s = None"
  then show "re_match (pattern2 uw) s = None" by (rule re_match_pattern2_None)
next
  fix s new rest assume occ: "rule2_occ uw s = Some (new, rest)"
  then obtain m g where "re_match (pattern2 uw) s = Some ((m, [g]), rest)" "new = guarded g"
    using re_match_pattern2_Some by blast
  moreover have "length rest < length s"
    using occ unfolding rule2_occ_iff by (auto simp: str_def)
  ultimately show "length rest < length s \<and>
       (\<exists>m. re_match (pattern2 uw) s = Some (m, rest) \<and> replacement2 m = Inr new)"
    by (auto simp: replacement2_guarded)
qed

lemma fix_id_parsing_transform: "fix_id_parsing uw x = Inr (transform uw x)"
  by (simp add: fix_id_parsing_def transform_def re_sub_rule1 re_sub_rule2)

section \<open>Rules that are tidy\<close>

subsection \<open>Texts split at their first special character\<close>

lemma takeWhile_shorter: "c \<in> set u \<Longrightarrow> \<not> P c \<Longrightarrow> length (takeWhile P u) < length u"
  by (induction u) (auto simp: less_Suc_eq_le length_takeWhile_le)

lemma first_stop:
  assumes eq: "m0 @ x # rest = u @ t0 @ y # b"
    and "\<forall>c\<in>set m0. P c" "\<forall>c\<in>set t0. P c" "\<not> P x" "\<not> P y"
  shows "length m0 < length u \<or> (m0 = u @ t0 \<and> x = y \<and> rest = b)"
proof (cases "\<forall>c\<in>set u. P c")
  case True
  have "m0 @ x # rest = (u @ t0) @ y # b" using eq by simp
  then have "m0 = u @ t0 \<and> x = y \<and> rest = b"
    by (rule split_unique [where P = P]) (use assms True in auto)
  then show ?thesis by simp
next
  case False
  then obtain c where "c \<in> set u" "\<not> P c" by blast
  note c = this
  then have "takeWhile P (u @ t0 @ y # b) = takeWhile P u"
    by (rule takeWhile_append1)
  moreover have "takeWhile P (m0 @ x # rest) = m0"
    using assms(2-5) by (simp add: takeWhile_stop)
  ultimately have "m0 = takeWhile P u" by (metis eq)
  moreover have "length (takeWhile P u) < length u"
    using c by (rule takeWhile_shorter)
  ultimately show ?thesis by simp
qed

subsection \<open>Replacing all occurrences of a tidy rule\<close>

lemma tidy_shorter: "tidy occ \<Longrightarrow> occ s = Some (new, rest) \<Longrightarrow> length rest < length s"
  unfolding tidy_def by fastforce

lemma tidy_Nil: "tidy occ \<Longrightarrow> occ [] = None"
  using tidy_shorter [of occ "[]"] by (cases "occ []") auto

lemma replace_all_None: "occ (c # cs) = None \<Longrightarrow> replace_all occ (c # cs) = c # replace_all occ cs"
  by simp

lemma replace_all_Some:
  assumes "tidy occ" "occ s = Some (new, rest)"
  shows "replace_all occ s = new @ replace_all occ rest"
proof (cases s)
  case Nil
  then show ?thesis using assms tidy_Nil by fastforce
next
  case (Cons c cs)
  then show ?thesis using assms tidy_shorter [OF assms] by simp
qed

lemma tidy_starts: "tidy occ \<Longrightarrow> occ s = Some (new, rest) \<Longrightarrow> starts_const s"
  unfolding tidy_def starts_const_def by fastforce

lemma tidy_extend:
  assumes "tidy occ" "occ s = Some (new, rest)"
  shows "occ (s @ t) = Some (new, rest @ t)"
proof -
  from assms obtain m0 where "s = m0 @ 59 # rest" "\<forall>rest'. occ (m0 @ 59 # rest') = Some (new, rest')"
    unfolding tidy_def by blast
  then show ?thesis by simp
qed

lemma tidy_cut:
  assumes "tidy occ" "occ (a @ t) = Some (new, rest)" "length t \<le> length rest"
  shows "\<exists>a'. rest = a' @ t \<and> occ a = Some (new, a')"
proof -
  from assms obtain m0 where m0: "a @ t = m0 @ 59 # rest"
      "\<forall>rest'. occ (m0 @ 59 # rest') = Some (new, rest')"
    unfolding tidy_def by blast
  have "suffix rest (a @ t)" by (metis m0(1) append.assoc append_Cons append_Nil suffixI)
  moreover have "suffix t (a @ t)" by (rule suffixI) simp
  ultimately have "suffix rest (a @ t)" "suffix t (a @ t)" by simp_all
  then have "suffix t rest" using assms(3) by (metis suffix_length_suffix)
  then obtain a' where a': "rest = a' @ t" by (auto simp: suffix_def)
  then have "a = m0 @ 59 # a'" using m0(1) by simp
  then show ?thesis using a' m0(2) by simp
qed

lemma replace_all_append:
  assumes "tidy occ"
    and "\<And>u new rest. u \<noteq> [] \<Longrightarrow> occ (u @ t) = Some (new, rest) \<Longrightarrow> length t \<le> length rest"
  shows "replace_all occ (a @ t) = replace_all occ a @ replace_all occ t"
proof (induction a rule: length_induct)
  case (1 a)
  show ?case
  proof (cases a)
    case Nil
    then show ?thesis by simp
  next
    case (Cons c cs)
    show ?thesis
    proof (cases "occ (a @ t)")
      case None
      have "occ a = None"
      proof (cases "occ a")
        case (Some p)
        then show ?thesis using tidy_extend [OF assms(1), of a "fst p" "snd p" t] None by simp
      qed simp
      then show ?thesis using None Cons 1 by simp
    next
      case (Some p)
      obtain new rest where p: "p = (new, rest)" by (cases p)
      have "length t \<le> length rest" using assms(2) [of a new rest] Some p Cons by simp
      then obtain a' where a': "rest = a' @ t" "occ a = Some (new, a')"
        using tidy_cut [OF assms(1)] Some p by blast
      have "length a' < length a" using tidy_shorter [OF assms(1) a'(2)] .
      then have "replace_all occ (a' @ t) = replace_all occ a' @ replace_all occ t"
        using 1 by blast
      then show ?thesis
        using replace_all_Some [OF assms(1) a'(2)] replace_all_Some [OF assms(1) Some [unfolded p]] a'(1)
        by simp
    qed
  qed
qed

lemma replace_all_skip:
  assumes "\<And>t2. t2 \<noteq> [] \<Longrightarrow> suffix t2 t \<Longrightarrow> occ (t2 @ b) = None"
  shows "replace_all occ (t @ b) = t @ replace_all occ b"
  using assms
proof (induction t)
  case Nil
  then show ?case by simp
next
  case (Cons c t)
  have "occ ((c # t) @ b) = None" using Cons.prems [of "c # t"] by simp
  moreover have "replace_all occ (t @ b) = t @ replace_all occ b"
    using Cons.IH Cons.prems by (simp add: suffix_Cons)
  ultimately show ?case by simp
qed

lemma replace_all_id:
  assumes "\<And>s'. suffix s' s \<Longrightarrow> occ s' = None"
  shows "replace_all occ s = s"
  using replace_all_skip [of s occ "[]"] assms by simp


subsection \<open>Where an occurrence cannot start\<close>

lemma no_start_Nil: "no_start [] f"
  by (simp add: no_start_def)

lemma no_start_Cons:
  "no_start (c # t) f \<longleftrightarrow> (\<forall>b. \<not> starts_const (c # t @ f @ b)) \<and> no_start t f"
  by (auto simp: no_start_def suffix_Cons)

lemma no_start_append:
  assumes "no_start t' f" "no_start t (t' @ f)"
  shows "no_start (t @ t') f"
  unfolding no_start_def
proof (intro allI impI)
  fix t2 b assume t2: "t2 \<noteq> []" "suffix t2 (t @ t')"
  from t2(2) have "suffix t2 t' \<or> (\<exists>x. suffix x t \<and> t2 = x @ t')"
    unfolding suffix_append by blast
  then show "\<not> starts_const (t2 @ f @ b)"
  proof
    assume "suffix t2 t'"
    then show ?thesis using assms(1) t2(1) by (simp add: no_start_def)
  next
    assume "\<exists>x. suffix x t \<and> t2 = x @ t'"
    then obtain x where x: "suffix x t" "t2 = x @ t'" by blast
    show ?thesis
    proof (cases "x = []")
      case True
      then show ?thesis using assms(1) t2(1) x by (simp add: no_start_def)
    next
      case False
      then show ?thesis using assms(2) x by (simp add: no_start_def)
    qed
  qed
qed

lemma no_start_name_eq:
  assumes "32 \<notin> set g"
  shows "no_start g (32 # 61 # f)"
  unfolding no_start_def
proof (intro allI impI notI)
  fix t2 b assume t2: "suffix t2 g" and "starts_const (t2 @ (32 # 61 # f) @ b)"
  then obtain x r where eq: "t2 @ 32 # (61 # f @ b) = [99, 111, 110, 115, 116] @ 32 # (x # r)"
      and x: "x \<noteq> 61"
    by (auto simp: starts_const_def)
  have "32 \<notin> set t2" using assms t2 by (auto simp: suffix_def)
  then have "t2 = [99, 111, 110, 115, 116] \<and> (32::nat) = 32 \<and> 61 # f @ b = x # r"
    by (intro split_unique [OF eq, where P = "\<lambda>c. c \<noteq> 32"]) auto
  then show False using x by simp
qed

lemma no_start_name_paren:
  assumes "32 \<notin> set g" "41 \<notin> set g"
  shows "no_start g (41 # f)"
  unfolding no_start_def
proof (intro allI impI notI)
  fix t2 b assume t2: "suffix t2 g" and "starts_const (t2 @ (41 # f) @ b)"
  then obtain x r where eq: "t2 @ 41 # (f @ b) = [99, 111, 110, 115, 116] @ 32 # (x # r)"
    by (auto simp: starts_const_def)
  have "32 \<notin> set t2" "41 \<notin> set t2" using assms t2 by (auto simp: suffix_def)
  then have "t2 = [99, 111, 110, 115, 116] \<and> (41::nat) = 32 \<and> f @ b = x # r"
    by (intro split_unique [OF eq, where P = "\<lambda>c. c \<noteq> 32 \<and> c \<noteq> 41"]) auto
  then show False by simp
qed

lemma guarded_no_start:
  assumes "32 \<notin> set g" "41 \<notin> set g"
  shows "no_start (tl (guarded g)) []"
proof -
  define l1 :: pystr where "l1 = [111, 110, 115, 116, 32]"
  define l2 :: pystr where "l2 = str '' = parseInt(req.params.id);'' @ [10] @ str ''    if (isNaN(''"
  define l3 :: pystr where "l3 = str '')) {'' @ [10] @
     str ''      return res.status(400).json({ success: false, error: '' @ [39] @
     str ''Invalid ID'' @ [39] @ str '' });'' @ [10] @ str ''    }''"
  have g: "tl (guarded g) = l1 @ g @ l2 @ g @ l3"
    by (simp add: guarded_def l1_def l2_def l3_def str_def)
  have 3: "no_start l3 []"
    by (simp add: l3_def str_def no_start_Cons no_start_Nil starts_const_def)
  have 4: "no_start g (l3 @ [])"
    using no_start_name_paren [OF assms] by (simp add: l3_def str_def)
  have 5: "no_start l2 (g @ l3)" for g
    by (simp add: l2_def str_def no_start_Cons no_start_Nil starts_const_def)
  have 6: "no_start g (l2 @ g @ l3)"
    using no_start_name_eq [OF assms(1)] by (simp add: l2_def str_def)
  have 7: "no_start l1 (g @ l2 @ g @ l3)"
    by (simp add: l1_def no_start_Cons no_start_Nil starts_const_def)
  have a: "no_start (g @ l3) []" using 3 4 by (rule no_start_append)
  have b: "no_start (l2 @ g @ l3) []"
    using no_start_append [OF a, of l2] 5 by simp
  have c: "no_start (g @ l2 @ g @ l3) []"
    using no_start_append [OF b, of g] 6 by simp
  have "no_start (l1 @ g @ l2 @ g @ l3) []"
    using no_start_append [OF c, of l1] 7 by simp
  then show ?thesis by (simp add: g)
qed


subsection \<open>No occurrence touches a guarded binding\<close>

lemma tidy_inside:
  assumes "tidy occ" "no_start (tl t) []" "t1 \<noteq> []" "t2 \<noteq> []" "t1 @ t2 = t"
  shows "occ (t2 @ b) = None"
proof (cases "occ (t2 @ b)")
  case (Some p)
  then have "starts_const (t2 @ b)" using tidy_starts [OF assms(1), of "t2 @ b" "fst p" "snd p"] by simp
  moreover have "suffix t2 (tl t)" using assms(3,5) by (cases t1) (auto simp: suffix_def)
  ultimately show ?thesis using assms(2,4) by (auto simp: no_start_def)
qed simp

lemma guarded_split:
  "guarded g = (str ''const '' @ g @ str '' = parseInt'') @ 40 #
     (str ''req.params.id);'' @ [10] @
      str ''    if (isNaN('' @ g @ str '')) {'' @ [10] @
      str ''      return res.status(400).json({ success: false, error: '' @ [39] @
      str ''Invalid ID'' @ [39] @ str '' });'' @ [10] @ str ''    }'')"
  by (simp add: guarded_def str_def)

lemma tidy_guarded_straddle:
  assumes "tidy occ" "bare g" "occ (u @ guarded g @ b) = Some (new, rest)"
  shows "length (guarded g @ b) \<le> length rest"
proof -
  from assms(1,3) obtain m0 where m0: "u @ guarded g @ b = m0 @ 59 # rest"
      "59 \<notin> set m0" "40 \<notin> set m0"
    unfolding tidy_def by blast
  define pre where "pre = str ''const '' @ g @ str '' = parseInt''"
  obtain post where post: "guarded g = pre @ 40 # post"
    using guarded_split [of g] unfolding pre_def by blast
  have pre: "\<forall>c\<in>set pre. c \<noteq> 59 \<and> c \<noteq> 40"
    using assms(2) by (auto simp: pre_def bare_def str_def)
  have "m0 @ 59 # rest = u @ pre @ 40 # (post @ b)" using m0(1) post by simp
  then have "length m0 < length u \<or> (m0 = u @ pre \<and> (59::nat) = 40 \<and> rest = post @ b)"
    by (rule first_stop [where P = "\<lambda>c. c \<noteq> 59 \<and> c \<noteq> 40"]) (use m0 pre in auto)
  then have "length m0 < length u" by simp
  moreover have "length u + length (guarded g @ b) = length m0 + 1 + length rest"
    using arg_cong [OF m0(1), of length] by simp
  ultimately show ?thesis by simp
qed

lemma tidy_guarded_none:
  assumes "tidy occ" "bare g" "t2 \<noteq> []" "suffix t2 (guarded g)"
  shows "occ (t2 @ b) = None"
proof -
  from assms(4) obtain t1 where t: "t1 @ t2 = guarded g" by (auto simp: suffix_def)
  show ?thesis
  proof (cases "t1 = []")
    case True
    show ?thesis
    proof (cases "occ (t2 @ b)")
      case (Some p)
      obtain new rest where p: "p = (new, rest)" by (cases p)
      have "occ ([] @ guarded g @ b) = Some (new, rest)" using Some p t True by simp
      then have "length (guarded g @ b) \<le> length rest"
        by (rule tidy_guarded_straddle [OF assms(1,2)])
      moreover have "length rest < length (guarded g @ b)"
        using tidy_shorter [OF assms(1), of "t2 @ b" new rest] Some p t True by simp
      ultimately show ?thesis by simp
    qed simp
  next
    case False
    have "no_start (tl (guarded g)) []"
      using assms(2) by (intro guarded_no_start) (simp_all add: bare_def)
    then show ?thesis using tidy_inside [OF assms(1) _ False assms(3) t] by blast
  qed
qed

lemma replace_all_guarded:
  assumes "tidy occ" "bare g"
  shows "replace_all occ (a @ guarded g @ b) = replace_all occ a @ guarded g @ replace_all occ b"
proof -
  have "replace_all occ (a @ guarded g @ b) = replace_all occ a @ replace_all occ (guarded g @ b)"
    using assms by (intro replace_all_append) (auto dest: tidy_guarded_straddle)
  moreover have "replace_all occ (guarded g @ b) = guarded g @ replace_all occ b"
    using assms by (intro replace_all_skip tidy_guarded_none)
  ultimately show ?thesis by simp
qed

subsection \<open>The result of a rule holds no new occurrence\<close>

lemma reflect:
  assumes "tidy occ" "tidy occ'"
  shows "occ' (u @ replace_all occ s) = Some (new, rest) \<Longrightarrow> \<exists>rest'. occ' (u @ s) = Some (new, rest')"
proof (induction s arbitrary: u rest rule: length_induct)
  case (1 s)
  show ?case
  proof (cases s)
    case Nil
    then show ?thesis using 1 by simp
  next
    case (Cons c cs)
    show ?thesis
    proof (cases "occ s")
      case None
      then have "replace_all occ s = c # replace_all occ cs" using Cons by simp
      then have "occ' ((u @ [c]) @ replace_all occ cs) = Some (new, rest)" using 1(2) by simp
      moreover have "length cs < length s" using Cons by simp
      ultimately obtain rest' where "occ' ((u @ [c]) @ cs) = Some (new, rest')"
        using 1(1) by blast
      then show ?thesis using Cons by simp
    next
      case (Some p)
      obtain new1 rest1 where p: "p = (new1, rest1)" by (cases p)
      obtain g where g: "new1 = guarded g" "bare g"
        using assms(1) Some p unfolding tidy_def by blast
      have out: "replace_all occ s = guarded g @ replace_all occ rest1"
        using replace_all_Some [OF assms(1) Some [unfolded p]] g by simp
      then have occ': "occ' (u @ guarded g @ replace_all occ rest1) = Some (new, rest)"
        using 1(2) by simp
      then have "length (guarded g @ replace_all occ rest1) \<le> length rest"
        by (rule tidy_guarded_straddle [OF assms(2) g(2)])
      then obtain a' where "occ' u = Some (new, a')"
        using tidy_cut [OF assms(2) occ'] by blast
      then show ?thesis using tidy_extend [OF assms(2)] by blast
    qed
  qed
qed

lemma replace_all_clean:
  assumes "tidy occ" "tidy occ'"
  shows "(\<And>s'. suffix s' s \<Longrightarrow> occ' s' \<noteq> None \<Longrightarrow> occ s' \<noteq> None) \<Longrightarrow>
     suffix y (replace_all occ s) \<Longrightarrow> occ' y = None"
proof (induction s arbitrary: y rule: length_induct)
  case (1 s)
  show ?case
  proof (cases s)
    case Nil
    then show ?thesis using 1(3) tidy_Nil [OF assms(2)] by simp
  next
    case (Cons c cs)
    show ?thesis
    proof (cases "occ s")
      case None
      then have out: "replace_all occ s = c # replace_all occ cs" using Cons by simp
      have cs: "\<And>s'. suffix s' cs \<Longrightarrow> occ' s' \<noteq> None \<Longrightarrow> occ s' \<noteq> None"
        using 1(2) Cons by (simp add: suffix_Cons)
      from 1(3) out consider "y = c # replace_all occ cs" | "suffix y (replace_all occ cs)"
        by (auto simp: suffix_Cons)
      then show ?thesis
      proof cases
        case 1
        show ?thesis
        proof (cases "occ' y")
          case (Some p)
          then have "occ' ([c] @ replace_all occ cs) = Some (fst p, snd p)" using 1 by simp
          then obtain rest' where "occ' ([c] @ cs) = Some (fst p, rest')"
            using reflect [OF assms] by blast
          then have "occ' s \<noteq> None" using Cons by simp
          then have "occ s \<noteq> None" using \<open>\<And>s'. suffix s' s \<Longrightarrow> occ' s' \<noteq> None \<Longrightarrow> occ s' \<noteq> None\<close> by simp
          then show ?thesis using None by simp
        qed simp
      next
        case 2
        moreover have "length cs < length s" using Cons by simp
        ultimately show ?thesis using "1.IH" cs by blast
      qed
    next
      case (Some p)
      obtain new1 rest1 where p: "p = (new1, rest1)" by (cases p)
      obtain g m0 where g: "new1 = guarded g" "bare g" "s = m0 @ 59 # rest1"
        using assms(1) Some p unfolding tidy_def by blast
      have out: "replace_all occ s = guarded g @ replace_all occ rest1"
        using replace_all_Some [OF assms(1) Some [unfolded p]] g by simp
      have "suffix rest1 s" using g(3) by (metis append.assoc append_Cons append_Nil suffixI)
      then have r1: "\<And>s'. suffix s' rest1 \<Longrightarrow> occ' s' \<noteq> None \<Longrightarrow> occ s' \<noteq> None"
        using 1(2) suffix_order.trans by blast
      have len: "length rest1 < length s" using g(3) by simp
      from 1(3) have "suffix y (guarded g @ replace_all occ rest1)" unfolding out .
      then have "suffix y (replace_all occ rest1) \<or>
          (\<exists>x. suffix x (guarded g) \<and> y = x @ replace_all occ rest1)"
        unfolding suffix_append by blast
      then show ?thesis
      proof
        assume "suffix y (replace_all occ rest1)"
        then show ?thesis using "1.IH" len r1 by blast
      next
        assume "\<exists>x. suffix x (guarded g) \<and> y = x @ replace_all occ rest1"
        then obtain x where x: "suffix x (guarded g)" "y = x @ replace_all occ rest1" by blast
        show ?thesis
        proof (cases "x = []")
          case True
          then have "suffix y (replace_all occ rest1)" using x by simp
          then show ?thesis using "1.IH" len r1 by blast
        next
          case False
          then show ?thesis using tidy_guarded_none [OF assms(2) g(2) False x(1)] x(2) by simp
        qed
      qed
    qed
  qed
qed


subsection \<open>Both rules are tidy\<close>

lemma word_bare: "\<forall>c\<in>set w. is_word uw c \<Longrightarrow> bare w"
  unfolding bare_def by (metis is_word_ascii(3,4,5,6))

lemma tidy_rule1: "tidy rule1_occ"
  unfolding tidy_def
proof (intro allI impI)
  fix s new rest assume "rule1_occ s = Some (new, rest)"
  then have s: "s = str ''const { id } = req.params'' @ 59 # rest" and new: "new = guarded (str ''id'')"
    by (auto simp: rule1_occ_def prefix_def str_def split: if_splits)
  show "\<exists>m0 v. s = m0 @ 59 # rest \<and> 59 \<notin> set m0 \<and> 40 \<notin> set m0 \<and> starts_const m0 \<and>
           new = guarded v \<and> bare v \<and> (\<forall>rest'. rule1_occ (m0 @ 59 # rest') = Some (new, rest'))"
    by (rule exI [of _ "str ''const { id } = req.params''"], rule exI [of _ "str ''id''"])
      (simp add: s new str_def starts_const_def bare_def rule1_occ_def)
qed

lemma tidy_rule2: "tidy (rule2_occ uw)"
  unfolding tidy_def
proof (intro allI impI)
  fix s new rest assume "rule2_occ uw s = Some (new, rest)"
  then obtain w where w: "w \<noteq> []" "\<forall>c\<in>set w. is_word uw c"
      "s = str ''const '' @ w @ str ''Id'' @ str '' = req.params.id;'' @ rest"
      "new = guarded (w @ str ''Id'')"
    unfolding rule2_occ_iff by blast
  define m0 where "m0 = str ''const '' @ w @ str ''Id = req.params.id''"
  have bw: "bare w" using w(2) by (rule word_bare)
  obtain x r where xr: "w = x # r" using w(1) by (cases w) auto
  then have "x \<noteq> 61" using w(2) by (metis is_word_ascii(7) list.set_intros(1))
  then have 1: "starts_const m0" unfolding m0_def xr by (simp add: starts_const_def str_def)
  have 2: "s = m0 @ 59 # rest" using w(3) by (simp add: m0_def str_def)
  have 3: "59 \<notin> set m0" "40 \<notin> set m0" using bw by (auto simp: m0_def bare_def str_def)
  have 4: "bare (w @ str ''Id'')" using bw by (simp add: bare_def str_def)
  have 5: "rule2_occ uw (m0 @ 59 # rest') = Some (new, rest')" for rest'
    unfolding rule2_occ_iff using w(1,2,4) by (intro exI [of _ w]) (simp add: m0_def str_def)
  show "\<exists>m0 v. s = m0 @ 59 # rest \<and> 59 \<notin> set m0 \<and> 40 \<notin> set m0 \<and> starts_const m0 \<and>
           new = guarded v \<and> bare v \<and> (\<forall>rest'. rule2_occ uw (m0 @ 59 # rest') = Some (new, rest'))"
    using 1 2 3 4 5 w(4) by blast
qed

subsection \<open>The transformed text holds no occurrence of either rule\<close>

lemma rule1_clean:
  "suffix y (replace_all rule1_occ s) \<Longrightarrow> rule1_occ y = None"
  using replace_all_clean [OF tidy_rule1 tidy_rule1, of s y] by blast

lemma transform_clean1:
  assumes "suffix y (transform uw x)"
  shows "rule1_occ y = None"
proof (rule replace_all_clean [OF tidy_rule2 tidy_rule1])
  show "suffix y (replace_all (rule2_occ uw) (replace_all rule1_occ x))"
    using assms by (simp add: transform_def)
next
  fix s' assume "suffix s' (replace_all rule1_occ x)" "rule1_occ s' \<noteq> None"
  then show "rule2_occ uw s' \<noteq> None" using rule1_clean [of s' x] by simp
qed

lemma transform_clean2:
  assumes "suffix y (transform uw x)"
  shows "rule2_occ uw y = None"
proof (rule replace_all_clean [OF tidy_rule2 tidy_rule2])
  show "suffix y (replace_all (rule2_occ uw) (replace_all rule1_occ x))"
    using assms by (simp add: transform_def)
qed

lemma transform_idem: "transform uw (transform uw x) = transform uw x"
proof -
  have "replace_all rule1_occ (transform uw x) = transform uw x"
    by (rule replace_all_id) (rule transform_clean1)
  moreover have "replace_all (rule2_occ uw) (transform uw x) = transform uw x"
    by (rule replace_all_id) (rule transform_clean2)
  ultimately show ?thesis by (simp add: transform_def [of uw "transform uw x"])
qed

subsection \<open>A text in its context\<close>

lemma replace_all_inert:
  assumes "tidy occ" "no_start (tl t) []"
    and "\<And>u b new rest. occ (u @ t @ b) = Some (new, rest) \<Longrightarrow> length (t @ b) \<le> length rest"
  shows "replace_all occ (a @ t @ b) = replace_all occ a @ t @ replace_all occ b"
proof -
  have "replace_all occ (a @ t @ b) = replace_all occ a @ replace_all occ (t @ b)"
    using assms(1,3) by (intro replace_all_append) auto
  moreover have "replace_all occ (t @ b) = t @ replace_all occ b"
  proof (rule replace_all_skip)
    fix t2 assume t2: "t2 \<noteq> []" "suffix t2 t"
    then obtain t1 where t: "t1 @ t2 = t" by (auto simp: suffix_def)
    show "occ (t2 @ b) = None"
    proof (cases "t1 = []")
      case True
      show ?thesis
      proof (cases "occ (t2 @ b)")
        case (Some p)
        obtain new rest where p: "p = (new, rest)" by (cases p)
        have "occ ([] @ t @ b) = Some (new, rest)" using Some p t True by simp
        then have "length (t @ b) \<le> length rest" by (rule assms(3))
        moreover have "length rest < length (t @ b)"
          using tidy_shorter [OF assms(1), of "t2 @ b" new rest] Some p t True by simp
        ultimately show ?thesis by simp
      qed simp
    next
      case False
      then show ?thesis using tidy_inside [OF assms(1,2) False t2(1) t] by blast
    qed
  qed
  ultimately show ?thesis by simp
qed

lemma replace_all_at:
  assumes "tidy occ" "occ (t @ b) = Some (new, b)"
    and "\<And>u new rest. u \<noteq> [] \<Longrightarrow> occ (u @ t @ b) = Some (new, rest) \<Longrightarrow>
          length (t @ b) \<le> length rest"
  shows "replace_all occ (a @ t @ b) = replace_all occ a @ new @ replace_all occ b"
proof -
  have "replace_all occ (a @ t @ b) = replace_all occ a @ replace_all occ (t @ b)"
    using assms(1,3) by (intro replace_all_append) auto
  then show ?thesis using replace_all_Some [OF assms(1,2)] by simp
qed

subsection \<open>The destructuring and the assignment in their context\<close>

lemma rule1_at:
  "replace_all rule1_occ (a @ str ''const { id } = req.params;'' @ b) =
   replace_all rule1_occ a @ guarded (str ''id'') @ replace_all rule1_occ b"
proof (rule replace_all_at [OF tidy_rule1])
  show "rule1_occ (str ''const { id } = req.params;'' @ b) = Some (guarded (str ''id''), b)"
    by (simp add: rule1_occ_def str_def)
next
  fix u new rest
  assume u: "u \<noteq> []" and "rule1_occ (u @ str ''const { id } = req.params;'' @ b) = Some (new, rest)"
  then have "str ''const { id } = req.params'' @ 59 # rest =
      u @ str ''const { id } = req.params'' @ 59 # b"
    by (auto simp: rule1_occ_def prefix_def str_def split: if_splits)
  then have "length (str ''const { id } = req.params'') < length u \<or>
      (str ''const { id } = req.params'' = u @ str ''const { id } = req.params'' \<and>
       (59::nat) = 59 \<and> rest = b)"
    by (rule first_stop [where P = "\<lambda>c. c \<noteq> 59"]) (simp_all add: str_def)
  then have "length (str ''const { id } = req.params'') < length u" using u by auto
  moreover have "length (str ''const { id } = req.params'' @ 59 # rest) =
      length (u @ str ''const { id } = req.params'' @ 59 # b)"
    using \<open>str ''const { id } = req.params'' @ 59 # rest =
      u @ str ''const { id } = req.params'' @ 59 # b\<close> by simp
  ultimately show "length (str ''const { id } = req.params;'' @ b) \<le> length rest"
    by (simp add: str_def)
qed

lemma assign_no_start:
  assumes "32 \<notin> set v"
  shows "no_start (tl (str ''const '' @ v @ str '' = req.params.id;'')) []"
proof -
  define l1 :: pystr where "l1 = [111, 110, 115, 116, 32]"
  define l2 :: pystr where "l2 = str '' = req.params.id;''"
  have t: "tl (str ''const '' @ v @ str '' = req.params.id;'') = l1 @ v @ l2"
    by (simp add: l1_def l2_def str_def)
  have 1: "no_start l2 []"
    by (simp add: l2_def str_def no_start_Cons no_start_Nil starts_const_def)
  have 2: "no_start v (l2 @ [])"
    using no_start_name_eq [OF assms] by (simp add: l2_def str_def)
  have 3: "no_start l1 (v @ l2)"
    by (simp add: l1_def no_start_Cons no_start_Nil starts_const_def)
  have "no_start (v @ l2) []" using 1 2 by (rule no_start_append)
  then have "no_start (l1 @ v @ l2) []" using no_start_append [of "v @ l2" "[]" l1] 3 by simp
  then show ?thesis by (simp add: t)
qed

lemma rule1_assign_straddle:
  assumes "59 \<notin> set v"
    and "rule1_occ (u @ (str ''const '' @ v @ str '' = req.params.id;'') @ b) = Some (new, rest)"
  shows "length ((str ''const '' @ v @ str '' = req.params.id;'') @ b) \<le> length rest"
proof -
  define m0 where "m0 = str ''const { id } = req.params''"
  define t0 where "t0 = str ''const '' @ v @ str '' = req.params.id''"
  from assms(2) have eq: "m0 @ 59 # rest = u @ t0 @ 59 # b"
    by (auto simp: rule1_occ_def prefix_def str_def m0_def t0_def split: if_splits)
  have "length m0 < length u \<or> (m0 = u @ t0 \<and> (59::nat) = 59 \<and> rest = b)"
    using eq by (rule first_stop [where P = "\<lambda>c. c \<noteq> 59"])
      (use assms(1) in \<open>auto simp: m0_def t0_def str_def\<close>)
  moreover have "m0 \<noteq> u @ t0"
  proof
    assume "m0 = u @ t0"
    then have "last m0 = last (u @ t0)" by simp
    then show False by (simp add: m0_def t0_def str_def)
  qed
  ultimately have "length m0 < length u" by simp
  moreover have "length (m0 @ 59 # rest) = length (u @ t0 @ 59 # b)" using eq by simp
  ultimately show ?thesis by (simp add: m0_def t0_def str_def)
qed

lemma rule1_assign:
  assumes "32 \<notin> set v" "59 \<notin> set v"
  shows "replace_all rule1_occ (a @ (str ''const '' @ v @ str '' = req.params.id;'') @ b) =
    replace_all rule1_occ a @ (str ''const '' @ v @ str '' = req.params.id;'') @
    replace_all rule1_occ b"
  using tidy_rule1 assign_no_start [OF assms(1)] rule1_assign_straddle [OF assms(2)]
  by (rule replace_all_inert)


lemma rule2_assign_straddle:
  assumes "59 \<notin> set v" "u \<noteq> []"
    and "rule2_occ uw (u @ (str ''const '' @ v @ str '' = req.params.id;'') @ b) = Some (new, rest)"
  shows "length ((str ''const '' @ v @ str '' = req.params.id;'') @ b) \<le> length rest"
proof -
  from assms(3) obtain w where w: "\<forall>c\<in>set w. is_word uw c"
      "u @ (str ''const '' @ v @ str '' = req.params.id;'') @ b =
       str ''const '' @ w @ str ''Id'' @ str '' = req.params.id;'' @ rest"
    unfolding rule2_occ_iff by blast
  define x where "x = str '' = req.params.id''"
  define m0 where "m0 = (str ''const '' @ w @ str ''Id'') @ x"
  define t0 where "t0 = (str ''const '' @ v) @ x"
  have bw: "bare w" using w(1) by (rule word_bare)
  have eq: "m0 @ 59 # rest = u @ t0 @ 59 # b"
    using w(2) by (simp add: m0_def t0_def x_def str_def)
  have "length m0 < length u \<or> (m0 = u @ t0 \<and> (59::nat) = 59 \<and> rest = b)"
    using eq by (rule first_stop [where P = "\<lambda>c. c \<noteq> 59"])
      (use assms(1) bw in \<open>auto simp: m0_def t0_def x_def str_def bare_def\<close>)
  moreover have "m0 \<noteq> u @ t0"
  proof
    assume "m0 = u @ t0"
    then have "(str ''const '' @ w @ str ''Id'') @ x = (u @ str ''const '' @ v) @ x"
      by (simp add: m0_def t0_def)
    then have e: "str ''const '' @ w @ str ''Id'' = u @ str ''const '' @ v"
      by (simp only: append_same_eq)
    obtain c u' where u: "u = c # u'" using assms(2) by (cases u) auto
    have "w @ str ''Id'' = drop 6 (str ''const '' @ w @ str ''Id'')" by (simp add: str_def)
    also have "\<dots> = drop 5 ((u' @ [99, 111, 110, 115, 116]) @ 32 # v)"
      unfolding e u by (simp add: str_def)
    also have "\<dots> = drop 5 (u' @ [99, 111, 110, 115, 116]) @ 32 # v"
    proof -
      have "5 - length (u' @ [99, 111, 110, 115, 116::nat]) = 0" by simp
      then show ?thesis by (simp only: drop_append drop_0)
    qed
    finally have "32 \<in> set (w @ str ''Id'')" by simp
    then show False using bw by (simp add: bare_def str_def)
  qed
  ultimately have "length m0 < length u" by simp
  moreover have "length (m0 @ 59 # rest) = length (u @ t0 @ 59 # b)" using eq by simp
  ultimately show ?thesis by (simp add: m0_def t0_def x_def str_def)
qed

lemma rule2_assign_at:
  assumes "w \<noteq> []" "\<forall>c\<in>set w. is_word uw c"
  shows "replace_all (rule2_occ uw)
      (a @ (str ''const '' @ (w @ str ''Id'') @ str '' = req.params.id;'') @ b) =
    replace_all (rule2_occ uw) a @ guarded (w @ str ''Id'') @ replace_all (rule2_occ uw) b"
proof (rule replace_all_at [OF tidy_rule2])
  show "rule2_occ uw ((str ''const '' @ (w @ str ''Id'') @ str '' = req.params.id;'') @ b) =
      Some (guarded (w @ str ''Id''), b)"
    unfolding rule2_occ_iff using assms by (intro exI [of _ w]) simp
next
  fix u new rest
  assume "u \<noteq> []"
    "rule2_occ uw (u @ (str ''const '' @ (w @ str ''Id'') @ str '' = req.params.id;'') @ b) =
      Some (new, rest)"
  moreover have "59 \<notin> set (w @ str ''Id'')"
    using word_bare [OF assms(2)] by (simp add: bare_def str_def)
  ultimately show
    "length ((str ''const '' @ (w @ str ''Id'') @ str '' = req.params.id;'') @ b) \<le> length rest"
    using rule2_assign_straddle by blast
qed

lemma rule2_assign_none:
  assumes "32 \<notin> set v" "\<not> (\<exists>w. w \<noteq> [] \<and> (\<forall>c\<in>set w. is_word uw c) \<and> v = w @ str ''Id'')"
  shows "rule2_occ uw ((str ''const '' @ v @ str '' = req.params.id;'') @ b) = None"
proof (cases "rule2_occ uw ((str ''const '' @ v @ str '' = req.params.id;'') @ b)")
  case None
  then show ?thesis .
next
  case (Some p)
  obtain new rest where p: "p = (new, rest)" by (cases p)
  have "rule2_occ uw ((str ''const '' @ v @ str '' = req.params.id;'') @ b) = Some (new, rest)"
    using Some p by simp
  then have "\<exists>w. w \<noteq> [] \<and> (\<forall>c\<in>set w. is_word uw c) \<and>
       (str ''const '' @ v @ str '' = req.params.id;'') @ b =
       str ''const '' @ w @ str ''Id'' @ str '' = req.params.id;'' @ rest \<and>
       new = guarded (w @ str ''Id'')"
    by (rule rule2_occ_iff [THEN iffD1])
  then obtain w where w: "w \<noteq> []" "\<forall>c\<in>set w. is_word uw c"
      "(str ''const '' @ v @ str '' = req.params.id;'') @ b =
       str ''const '' @ w @ str ''Id'' @ str '' = req.params.id;'' @ rest"
    by blast
  have bw: "bare w" using w(2) by (rule word_bare)
  define y where "y = str ''= req.params.id;''"
  have 1: "\<forall>c\<in>set v. c \<noteq> 32" using assms(1) by auto
  have 2: "\<forall>c\<in>set (w @ str ''Id''). c \<noteq> 32" using bw by (auto simp: bare_def str_def)
  have "v @ 32 # (y @ b) = (w @ str ''Id'') @ 32 # (y @ rest)"
    using w(3) by (simp add: str_def y_def)
  then have "v = w @ str ''Id'' \<and> (32::nat) = 32 \<and> y @ b = y @ rest"
    using 1 2 by (rule split_unique [where P = "\<lambda>c. c \<noteq> 32"]) simp_all
  then have "v = w @ str ''Id''" by (rule conjunct1)
  with w(1,2) have "\<exists>w. w \<noteq> [] \<and> (\<forall>c\<in>set w. is_word uw c) \<and> v = w @ str ''Id''"
    by (intro exI [of _ w]) simp
  with assms(2) show ?thesis by (rule notE)
qed

lemma rule2_assign:
  assumes "32 \<notin> set v" "59 \<notin> set v"
    and "\<not> (\<exists>w. w \<noteq> [] \<and> (\<forall>c\<in>set w. is_word uw c) \<and> v = w @ str ''Id'')"
  shows "replace_all (rule2_occ uw) (a @ (str ''const '' @ v @ str '' = req.params.id;'') @ b) =
    replace_all (rule2_occ uw) a @ (str ''const '' @ v @ str '' = req.params.id;'') @
    replace_all (rule2_occ uw) b"
proof (rule replace_all_inert [OF tidy_rule2 assign_no_start [OF assms(1)]])
  fix u b new rest
  assume occ: "rule2_occ uw (u @ (str ''const '' @ v @ str '' = req.params.id;'') @ b) =
      Some (new, rest)"
  show "length ((str ''const '' @ v @ str '' = req.params.id;'') @ b) \<le> length rest"
  proof (cases "u = []")
    case True
    then show ?thesis using occ rule2_assign_none [OF assms(1,3), of b] by simp
  next
    case False
    then show ?thesis using rule2_assign_straddle [OF assms(2) False occ] by simp
  qed
qed

subsection \<open>The whole transformation around a fragment\<close>

lemma transform_destructuring:
  "transform uw (a @ str ''const { id } = req.params;'' @ b) =
   transform uw a @ guarded (str ''id'') @ transform uw b"
proof -
  have "bare (str ''id'')" by (simp add: bare_def str_def)
  then show ?thesis
    by (simp add: transform_def rule1_at replace_all_guarded [OF tidy_rule2])
qed

lemma transform_assignment_Id:
  assumes "w \<noteq> []" "\<forall>c\<in>set w. is_word uw c"
  shows "transform uw (a @ (str ''const '' @ (w @ str ''Id'') @ str '' = req.params.id;'') @ b) =
   transform uw a @ guarded (w @ str ''Id'') @ transform uw b"
proof -
  have "bare (w @ str ''Id'')" using word_bare [OF assms(2)] by (simp add: bare_def str_def)
  then have v: "32 \<notin> set (w @ str ''Id'')" "59 \<notin> set (w @ str ''Id'')"
    by (simp_all add: bare_def)
  show ?thesis
    unfolding transform_def by (simp only: rule1_assign [OF v] rule2_assign_at [OF assms])
qed

lemma transform_assignment_other:
  assumes "32 \<notin> set v" "59 \<notin> set v"
    and "\<not> (\<exists>w. w \<noteq> [] \<and> (\<forall>c\<in>set w. is_word uw c) \<and> v = w @ str ''Id'')"
  shows "transform uw (a @ (str ''const '' @ v @ str '' = req.params.id;'') @ b) =
   transform uw a @ (str ''const '' @ v @ str '' = req.params.id;'') @ transform uw b"
  unfolding transform_def by (simp only: rule1_assign [OF assms(1,2)] rule2_assign [OF assms])

subsection \<open>Texts without an occurrence\<close>

lemma re_search_None:
  "re_search r s = None \<longleftrightarrow> (\<forall>s'. suffix s' s \<longrightarrow> re_match r s' = None)"
  by (induction s) (auto simp: suffix_Cons split: option.splits)

lemma rule1_occ_None: "rule1_occ s = None \<longleftrightarrow> re_match pattern1 s = None"
  by (simp add: rule1_occ_def re_match_pattern1)

lemma rule2_occ_None: "rule2_occ uw s = None \<longleftrightarrow> re_match (pattern2 uw) s = None"
  using re_match_pattern2_None [of uw s] re_match_pattern2_Some [of uw s]
  by (cases "rule2_occ uw s") auto

subsection \<open>Facts for the claims\<close>

lemma fix_id_parsing_Nil: "fix_id_parsing uw [] = Inr []"
  by (simp add: fix_id_parsing_transform transform_def)

lemma transform_no_match:
  "re_search pattern1 (transform uw x) = None" "re_search (pattern2 uw) (transform uw x) = None"
  using transform_clean1 [of _ uw x] transform_clean2 [of _ uw x]
  by (simp_all add: re_search_None flip: rule1_occ_None rule2_occ_None)

lemma not_rule2_name:
  assumes "\<not> (\<exists>p c. v = p @ c # str ''Id'' \<and> is_word uw c)"
  shows "\<not> (\<exists>w. w \<noteq> [] \<and> (\<forall>c\<in>set w. is_word uw c) \<and> v = w @ str ''Id'')"
proof
  assume "\<exists>w. w \<noteq> [] \<and> (\<forall>c\<in>set w. is_word uw c) \<and> v = w @ str ''Id''"
  then obtain w where w: "w \<noteq> []" "\<forall>c\<in>set w. is_word uw c" "v = w @ str ''Id''" by blast
  have "v = butlast w @ last w # str ''Id''" using w(1,3) by simp
  moreover have "is_word uw (last w)" using w(1,2) by simp
  ultimately show False using assms by blast
qed

subsection \<open>The loop leaves the shape of the file system alone\<close>

lemma target_Some:
  "target fs p = Some i \<longleftrightarrow> (\<exists>q. resolve fs symloop_max p = Inr (q, Some (File i)))"
  by (auto simp: target_def split: sum.splits option.splits node.splits)

lemma read_text_Inr:
  "read_text fs st p = Inr c \<longleftrightarrow>
     (\<exists>i wr d. target fs p = Some i \<and> map_of st i = Some (Data True wr d) \<and>
        c = universal_newlines d)"
  by (auto simp: read_text_def target_def
      split: sum.splits option.splits node.splits inode.splits)

lemma read_text_cong:
  assumes "\<And>i. target fs p = Some i \<Longrightarrow> map_of st' i = map_of st i"
  shows "read_text fs st' p = read_text fs st p"
proof (cases "target fs p")
  case None
  then show ?thesis
    by (auto simp: read_text_def target_def split: sum.splits option.splits node.splits)
next
  case (Some i)
  then obtain q where "resolve fs symloop_max p = Inr (q, Some (File i))"
    unfolding target_Some by blast
  then show ?thesis using assms [OF Some] by (simp add: read_text_def)
qed

lemma update_skeleton:
  "map_of st i = Some n \<Longrightarrow> skeleton n' = skeleton n \<Longrightarrow>
   map (apsnd skeleton) (AList.update i n' st) = map (apsnd skeleton) st"
  by (induction st) (auto split: if_splits)

lemma write_text_existing:
  assumes "target fs p = Some i" "map_of st i = Some (Data rd wr d)"
    and "write_text fs st p c = Inr (fs', st')"
  shows "fs' = fs \<and> st' = AList.update i (Data rd wr c) st \<and> wr"
proof -
  from assms(1) obtain q where "resolve fs symloop_max p = Inr (q, Some (File i))"
    unfolding target_Some by blast
  then show ?thesis using assms(2,3) by (auto simp: write_text_def split: if_splits)
qed

lemma process_file_cases:
  assumes "process_file alnum w p = (w', r)"
  shows "(files w' = files w \<and> store w' = store w \<and> written w' = written w) \<or>
     (\<exists>content new i wr old.
        target (files w) p = Some i \<and> map_of (store w) i = Some (Data True wr old) \<and>
        read_text (files w) (store w) p = Inr content \<and>
        fix_id_parsing alnum content = Inr new \<and> new \<noteq> content \<and>
        files w' = files w \<and> store w' = AList.update i (Data True wr new) (store w) \<and>
        written w' = written w @ [p])"
proof (cases "read_text (files w) (store w) p")
  case (Inl e)
  then show ?thesis using assms by (auto simp: process_file_def Let_def)
next
  case (Inr original)
  then obtain i wr d where d: "target (files w) p = Some i"
      "map_of (store w) i = Some (Data True wr d)"
    unfolding read_text_Inr by blast
  obtain content where c: "fix_id_parsing alnum original = Inr content"
    using fix_id_parsing_transform by blast
  show ?thesis
  proof (cases "content = original")
    case True
    then show ?thesis using assms Inr c by (auto simp: process_file_def Let_def)
  next
    case False
    show ?thesis
    proof (cases "write_text (files w) (store w) p content")
      case (Inl e)
      then show ?thesis using assms Inr c False by (auto simp: process_file_def Let_def)
    next
      case wt: (Inr res)
      obtain fs' st' where res: "res = (fs', st')" by (cases res)
      have fs': "fs' = files w" "st' = AList.update i (Data True wr content) (store w)"
        using write_text_existing [OF d] wt res by blast+
      have "w' = w\<lparr>stdout := stdout w @ [Processing p], files := fs', store := st',
          written := written w @ [p], stdout := stdout w @ [Processing p] @ [Fixed p]\<rparr>"
        using assms Inr c False wt res by (auto simp: process_file_def Let_def)
      then show ?thesis using Inr c False d fs' by auto
    qed
  qed
qed

lemma process_file_frame:
  assumes "process_file alnum w p = (w', r)"
  shows "files w' = files w \<and>
     map (apsnd skeleton) (store w') = map (apsnd skeleton) (store w) \<and>
     (\<forall>j. target (files w) p \<noteq> Some j \<longrightarrow> map_of (store w') j = map_of (store w) j) \<and>
     (written w' = written w \<or> written w' = written w @ [p])"
  using process_file_cases [OF assms]
proof
  assume "files w' = files w \<and> store w' = store w \<and> written w' = written w"
  then show ?thesis by simp
next
  assume "\<exists>content new i wr old.
        target (files w) p = Some i \<and> map_of (store w) i = Some (Data True wr old) \<and>
        read_text (files w) (store w) p = Inr content \<and>
        fix_id_parsing alnum content = Inr new \<and> new \<noteq> content \<and>
        files w' = files w \<and> store w' = AList.update i (Data True wr new) (store w) \<and>
        written w' = written w @ [p]"
  then obtain new i wr old where *: "target (files w) p = Some i"
      "map_of (store w) i = Some (Data True wr old)" "files w' = files w"
      "store w' = AList.update i (Data True wr new) (store w)" "written w' = written w @ [p]"
    by blast
  show ?thesis
    using * update_skeleton [OF *(2), of "Data True wr new"] by (auto simp: update_conv')
qed

lemma run_loop_frame:
  "run_loop alnum w ps = (w', r) \<Longrightarrow>
     files w' = files w \<and>
     map (apsnd skeleton) (store w') = map (apsnd skeleton) (store w) \<and>
     (\<forall>j. Some j \<notin> target (files w) ` set ps \<longrightarrow> map_of (store w') j = map_of (store w) j) \<and>
     set (written w') \<subseteq> set (written w) \<union> set ps"
proof (induction ps arbitrary: w)
  case Nil
  then show ?case by simp
next
  case (Cons p ps)
  obtain w1 r1 where p: "process_file alnum w p = (w1, r1)" by (cases "process_file alnum w p")
  note f = process_file_frame [OF p]
  show ?case
  proof (cases r1)
    case None
    then have "run_loop alnum w1 ps = (w', r)" using Cons.prems p by simp
    from Cons.IH [OF this] f show ?thesis by auto
  next
    case (Some e)
    then have "w' = w1" using Cons.prems p by simp
    then show ?thesis using f by auto
  qed
qed

lemma glob_ts_in_routes: "p \<in> set (glob_ts fs) \<Longrightarrow> in_routes_ts p \<and> p \<in> fst ` set fs"
  by (auto simp: glob_ts_def split: if_splits)

section \<open>The claims\<close>

text \<open>
  C1. Wherever a text holds \<^verbatim>\<open>const { id } = req.params;\<close>, the result holds in its
  place \<^verbatim>\<open>const id = parseInt(req.params.id);\<close> followed by the guard on \<^verbatim>\<open>isNaN(id)\<close>
  that returns status 400 with the body \<^verbatim>\<open>{ success: false, error: 'Invalid ID' }\<close>;
  the texts before and behind it are transformed on their own.
\<close>

theorem destructuring_rewritten:
  "\<exists>a' b'. fix_id_parsing alnum a = Inr a' \<and> fix_id_parsing alnum b = Inr b' \<and>
     fix_id_parsing alnum (a @ str ''const { id } = req.params;'' @ b) =
       Inr (a' @ str ''const id = parseInt(req.params.id);'' @
            str (''\<newline>    if (isNaN(id)) {\<newline>'' @
              ''      return res.status(400).json({ success: false, error: '' @ [CHR 0x27] @
              ''Invalid ID'' @ [CHR 0x27] @ '' });\<newline>'' @
              ''    }'') @ b')"
proof -
  have "guarded (str ''id'') = str ''const id = parseInt(req.params.id);'' @
            str (''\<newline>    if (isNaN(id)) {\<newline>'' @
              ''      return res.status(400).json({ success: false, error: '' @ [CHR 0x27] @
              ''Invalid ID'' @ [CHR 0x27] @ '' });\<newline>'' @
              ''    }'')"
    by (simp add: guarded_def str_def)
  then show ?thesis
    using transform_destructuring [of alnum a b] by (simp add: fix_id_parsing_transform)
qed

theorem destructuring_rewritten_witness:
  "fix_id_parsing (\<lambda>c. False) (str ''const { id } = req.params;'') =
     Inr (str (''const id = parseInt(req.params.id);\<newline>'' @
       ''    if (isNaN(id)) {\<newline>'' @
       ''      return res.status(400).json({ success: false, error: '' @ [CHR 0x27] @
       ''Invalid ID'' @ [CHR 0x27] @ '' });\<newline>'' @
       ''    }''))"
  using destructuring_rewritten [of "\<lambda>c. False" "[]" "[]"]
  by (simp add: fix_id_parsing_Nil str_def)

text \<open>
  C2. Wherever a text holds the assignment \<^verbatim>\<open>const <word>Id = req.params.id;\<close>, with one or
  more word characters before \<^verbatim>\<open>Id\<close>, the result holds in its place the binding of the
  same name to \<^verbatim>\<open>parseInt(req.params.id)\<close> followed by the guard on \<^verbatim>\<open>isNaN\<close> of that
  name, with the same 400 response.
\<close>

theorem assignment_rewritten:
  assumes "w \<noteq> []" "\<forall>c\<in>set w. is_word alnum c"
  shows "\<exists>a' b'. fix_id_parsing alnum a = Inr a' \<and> fix_id_parsing alnum b = Inr b' \<and>
     fix_id_parsing alnum (a @ str ''const '' @ w @ str ''Id'' @ str '' = req.params.id;'' @ b) =
       Inr (a' @ str ''const '' @ w @ str ''Id'' @ str '' = parseInt(req.params.id);'' @
            str ''\<newline>    if (isNaN('' @ w @ str ''Id'' @
            str ('')) {\<newline>'' @
              ''      return res.status(400).json({ success: false, error: '' @ [CHR 0x27] @
              ''Invalid ID'' @ [CHR 0x27] @ '' });\<newline>'' @
              ''    }'') @ b')"
proof -
  have "guarded (w @ str ''Id'') =
      str ''const '' @ w @ str ''Id'' @ str '' = parseInt(req.params.id);'' @
            str ''\<newline>    if (isNaN('' @ w @ str ''Id'' @
            str ('')) {\<newline>'' @
              ''      return res.status(400).json({ success: false, error: '' @ [CHR 0x27] @
              ''Invalid ID'' @ [CHR 0x27] @ '' });\<newline>'' @
              ''    }'')"
    by (simp add: guarded_def str_def)
  then show ?thesis
    using transform_assignment_Id [OF assms, of a b] by (simp add: fix_id_parsing_transform)
qed

theorem assignment_rewritten_witness:
  "fix_id_parsing (\<lambda>c. False) (str ''const userId = req.params.id;'') =
     Inr (str (''const userId = parseInt(req.params.id);\<newline>'' @
       ''    if (isNaN(userId)) {\<newline>'' @
       ''      return res.status(400).json({ success: false, error: '' @ [CHR 0x27] @
       ''Invalid ID'' @ [CHR 0x27] @ '' });\<newline>'' @
       ''    }''))"
proof -
  have 1: "str ''user'' \<noteq> []" by (simp add: str_def)
  have 2: "\<forall>c\<in>set (str ''user''). is_word (\<lambda>c. False) c" by (simp add: str_def is_word_def)
  show ?thesis
    using assignment_rewritten [OF 1 2, of "[]" "[]"]
    by (simp add: fix_id_parsing_Nil str_def)
qed

text \<open>
  C3. \<^verbatim>\<open>fix_id_parsing\<close> is idempotent: applied to its own result it returns that
  result again, since \<^verbatim>\<open>re.search\<close> finds neither pattern in the result.
\<close>

theorem fix_id_parsing_idempotent:
  "\<exists>y. fix_id_parsing alnum x = Inr y \<and> fix_id_parsing alnum y = Inr y \<and>
       re_search pattern1 y = None \<and> re_search (pattern2 alnum) y = None"
  by (simp add: fix_id_parsing_transform transform_idem transform_no_match)

text \<open>
  C4. A text in which \<^verbatim>\<open>re.search\<close> finds neither pattern is returned unchanged.
\<close>

theorem fix_id_parsing_no_match:
  assumes "re_search pattern1 x = None" "re_search (pattern2 alnum) x = None"
  shows "fix_id_parsing alnum x = Inr x"
proof -
  have "replace_all rule1_occ x = x"
    using assms(1) by (intro replace_all_id) (simp add: re_search_None rule1_occ_None)
  moreover have "replace_all (rule2_occ alnum) x = x"
    using assms(2) by (intro replace_all_id) (simp add: re_search_None rule2_occ_None)
  ultimately show ?thesis by (simp add: fix_id_parsing_transform transform_def)
qed

theorem fix_id_parsing_no_match_witness:
  "re_search pattern1 (str ''const { id } = req.body;'') = None \<and>
   re_search (pattern2 (\<lambda>c. False)) (str ''const { id } = req.body;'') = None \<and>
   fix_id_parsing (\<lambda>c. False) (str ''const { id } = req.body;'') =
     Inr (str ''const { id } = req.body;'')"
proof -
  have 1: "re_search pattern1 (str ''const { id } = req.body;'') = None"
    by code_simp
  have 2: "re_search (pattern2 (\<lambda>c. False)) (str ''const { id } = req.body;'') = None"
    by code_simp
  show ?thesis using 1 2 fix_id_parsing_no_match [OF 1 2] by simp
qed

text \<open>
  C5. A text that holds both the destructuring of Rule 1 and an assignment of Rule 2 is
  rewritten in both places by one application: the result holds both guarded bindings
  and no occurrence of either pattern.
\<close>

theorem both_rewritten:
  assumes "w \<noteq> []" "\<forall>c\<in>set w. is_word alnum c"
    and "sublist (str ''const { id } = req.params;'') x"
    and "sublist (str ''const '' @ w @ str ''Id'' @ str '' = req.params.id;'') x"
  shows "\<exists>y. fix_id_parsing alnum x = Inr y \<and>
     sublist (str (''const id = parseInt(req.params.id);\<newline>'' @
       ''    if (isNaN(id)) {\<newline>'' @
       ''      return res.status(400).json({ success: false, error: '' @ [CHR 0x27] @
       ''Invalid ID'' @ [CHR 0x27] @ '' });\<newline>'' @
       ''    }'')) y \<and>
     sublist (str ''const '' @ w @ str ''Id'' @ str '' = parseInt(req.params.id);\<newline>'' @
       str ''    if (isNaN('' @ w @ str ''Id'' @ str '')) {\<newline>'' @
       str (''      return res.status(400).json({ success: false, error: '' @ [CHR 0x27] @
       ''Invalid ID'' @ [CHR 0x27] @ '' });\<newline>'' @
       ''    }'')) y \<and>
     re_search pattern1 y = None \<and> re_search (pattern2 alnum) y = None"
proof -
  from assms(3) obtain a b where "x = a @ str ''const { id } = req.params;'' @ b"
    by (auto simp: sublist_def)
  then have "transform alnum x = transform alnum a @ guarded (str ''id'') @ transform alnum b"
    by (simp only: transform_destructuring)
  then have 1: "sublist (guarded (str ''id'')) (transform alnum x)"
    unfolding sublist_def by blast
  from assms(4) obtain c d where
    "x = c @ (str ''const '' @ (w @ str ''Id'') @ str '' = req.params.id;'') @ d"
    by (auto simp: sublist_def)
  then have "transform alnum x =
      transform alnum c @ guarded (w @ str ''Id'') @ transform alnum d"
    by (simp only: transform_assignment_Id [OF assms(1,2)])
  then have 2: "sublist (guarded (w @ str ''Id'')) (transform alnum x)"
    unfolding sublist_def by blast
  have 3: "guarded (str ''id'') = str (''const id = parseInt(req.params.id);\<newline>'' @
       ''    if (isNaN(id)) {\<newline>'' @
       ''      return res.status(400).json({ success: false, error: '' @ [CHR 0x27] @
       ''Invalid ID'' @ [CHR 0x27] @ '' });\<newline>'' @
       ''    }'')"
    by (simp add: guarded_def str_def)
  have 4: "guarded (w @ str ''Id'') =
      str ''const '' @ w @ str ''Id'' @ str '' = parseInt(req.params.id);\<newline>'' @
       str ''    if (isNaN('' @ w @ str ''Id'' @ str '')) {\<newline>'' @
       str (''      return res.status(400).json({ success: false, error: '' @ [CHR 0x27] @
       ''Invalid ID'' @ [CHR 0x27] @ '' });\<newline>'' @
       ''    }'')"
    by (simp add: guarded_def str_def)
  show ?thesis
    using 1 2 transform_no_match [of alnum x] unfolding 3 4
    by (simp add: fix_id_parsing_transform)
qed

theorem both_rewritten_witness:
  "fix_id_parsing (\<lambda>c. False)
     (str (''const { id } = req.params;\<newline>'' @ ''const postId = req.params.id;'')) =
   Inr (str (''const id = parseInt(req.params.id);\<newline>'' @
       ''    if (isNaN(id)) {\<newline>'' @
       ''      return res.status(400).json({ success: false, error: '' @ [CHR 0x27] @
       ''Invalid ID'' @ [CHR 0x27] @ '' });\<newline>'' @
       ''    }\<newline>'' @
       ''const postId = parseInt(req.params.id);\<newline>'' @
       ''    if (isNaN(postId)) {\<newline>'' @
       ''      return res.status(400).json({ success: false, error: '' @ [CHR 0x27] @
       ''Invalid ID'' @ [CHR 0x27] @ '' });\<newline>'' @
       ''    }''))"
proof -
  define x where "x = str (''const { id } = req.params;\<newline>'' @ ''const postId = req.params.id;'')"
  have 1: "str ''post'' \<noteq> []" by (simp add: str_def)
  have 2: "\<forall>c\<in>set (str ''post''). is_word (\<lambda>c. False) c" by (simp add: str_def is_word_def)
  have "x = [] @ str ''const { id } = req.params;'' @ str ''\<newline>const postId = req.params.id;''"
    by (simp add: x_def str_def)
  then have 3: "sublist (str ''const { id } = req.params;'') x"
    unfolding sublist_def by blast
  have "x = str ''const { id } = req.params;\<newline>'' @
      (str ''const '' @ str ''post'' @ str ''Id'' @ str '' = req.params.id;'') @ []"
    by (simp add: x_def str_def)
  then have 4: "sublist (str ''const '' @ str ''post'' @ str ''Id'' @ str '' = req.params.id;'') x"
    unfolding sublist_def by blast
  have "fix_id_parsing (\<lambda>c. False) x = Inr (transform (\<lambda>c. False) x)"
    by (rule fix_id_parsing_transform)
  moreover have "transform (\<lambda>c. False) x = str (''const id = parseInt(req.params.id);\<newline>'' @
       ''    if (isNaN(id)) {\<newline>'' @
       ''      return res.status(400).json({ success: false, error: '' @ [CHR 0x27] @
       ''Invalid ID'' @ [CHR 0x27] @ '' });\<newline>'' @
       ''    }\<newline>'' @
       ''const postId = parseInt(req.params.id);\<newline>'' @
       ''    if (isNaN(postId)) {\<newline>'' @
       ''      return res.status(400).json({ success: false, error: '' @ [CHR 0x27] @
       ''Invalid ID'' @ [CHR 0x27] @ '' });\<newline>'' @
       ''    }'')"
    unfolding x_def by code_simp
  ultimately show ?thesis
    using both_rewritten [OF 1 2 3 4] unfolding x_def by simp
qed

text \<open>
  C6. For a file the loop processes: when \<^verbatim>\<open>fix_id_parsing\<close> returns the text that was
  read, nothing is written and the file system is as before; and whenever the file
  system changes or a write is recorded, the text returned differs from the text read,
  and the one file the path leads to was rewritten with it.
\<close>

theorem write_only_when_changed:
  assumes "process_file alnum w filepath = (w', r)"
  shows "(\<forall>content. read_text (files w) (store w) filepath = Inr content \<and>
            fix_id_parsing alnum content = Inr content \<longrightarrow>
          files w' = files w \<and> store w' = store w \<and> written w' = written w \<and> r = None \<and>
          stdout w' = stdout w @ [Processing filepath, No_changes filepath]) \<and>
     (files w' \<noteq> files w \<or> store w' \<noteq> store w \<or> written w' \<noteq> written w \<longrightarrow>
        (\<exists>content new i writable old.
           target (files w) filepath = Some i \<and>
           map_of (store w) i = Some (Data True writable old) \<and>
           read_text (files w) (store w) filepath = Inr content \<and>
           fix_id_parsing alnum content = Inr new \<and> new \<noteq> content \<and>
           files w' = files w \<and>
           store w' = AList.update i (Data True writable new) (store w) \<and>
           written w' = written w @ [filepath]))"
proof (rule conjI)
  show "\<forall>content. read_text (files w) (store w) filepath = Inr content \<and>
            fix_id_parsing alnum content = Inr content \<longrightarrow>
          files w' = files w \<and> store w' = store w \<and> written w' = written w \<and> r = None \<and>
          stdout w' = stdout w @ [Processing filepath, No_changes filepath]"
    using assms by (auto simp: process_file_def Let_def)
next
  show "files w' \<noteq> files w \<or> store w' \<noteq> store w \<or> written w' \<noteq> written w \<longrightarrow>
        (\<exists>content new i writable old.
           target (files w) filepath = Some i \<and>
           map_of (store w) i = Some (Data True writable old) \<and>
           read_text (files w) (store w) filepath = Inr content \<and>
           fix_id_parsing alnum content = Inr new \<and> new \<noteq> content \<and>
           files w' = files w \<and>
           store w' = AList.update i (Data True writable new) (store w) \<and>
           written w' = written w @ [filepath])"
    using process_file_cases [OF assms] by blast
qed

theorem write_only_when_changed_witness:
  "files (fst (process_file (\<lambda>c. False)
       \<lparr>files = [(''src/routes/health.ts'', File 1)],
        store = [(1, Data True True (str ''const id = req.params.id;''))],
        written = [], stdout = []\<rparr> ''src/routes/health.ts'')) =
     [(''src/routes/health.ts'', File 1)] \<and>
   store (fst (process_file (\<lambda>c. False)
       \<lparr>files = [(''src/routes/health.ts'', File 1)],
        store = [(1, Data True True (str ''const id = req.params.id;''))],
        written = [], stdout = []\<rparr> ''src/routes/health.ts'')) =
     [(1, Data True True (str ''const id = req.params.id;''))] \<and>
   written (fst (process_file (\<lambda>c. False)
       \<lparr>files = [(''src/routes/health.ts'', File 1)],
        store = [(1, Data True True (str ''const id = req.params.id;''))],
        written = [], stdout = []\<rparr> ''src/routes/health.ts'')) = []"
proof -
  define w :: world where "w =
       \<lparr>files = [(''src/routes/health.ts'', File 1)],
        store = [(1, Data True True (str ''const id = req.params.id;''))],
        written = [], stdout = []\<rparr>"
  define res where "res = process_file (\<lambda>c. False) w ''src/routes/health.ts''"
  have p: "process_file (\<lambda>c. False) w ''src/routes/health.ts'' = (fst res, snd res)"
    by (simp add: res_def)
  have rd: "read_text (files w) (store w) ''src/routes/health.ts'' =
      Inr (str ''const id = req.params.id;'')"
    unfolding w_def by code_simp
  have fx: "fix_id_parsing (\<lambda>c. False) (str ''const id = req.params.id;'') =
      Inr (str ''const id = req.params.id;'')"
    by code_simp
  have "files (fst res) = files w \<and> store (fst res) = store w \<and> written (fst res) = written w"
    using write_only_when_changed [OF p] rd fx by blast
  then show ?thesis by (simp add: res_def w_def)
qed

text \<open>
  C7. \<^verbatim>\<open>fix_id_parsing\<close> is the composition of the two rules in their fixed order: it
  returns the text in which first every occurrence of Rule 1 and then, in that result,
  every occurrence of Rule 2 has been replaced.
\<close>

theorem fix_id_parsing_is_rule1_then_rule2:
  "fix_id_parsing alnum x = Inr (replace_all (rule2_occ alnum) (replace_all rule1_occ x))"
  by (simp add: fix_id_parsing_def re_sub_rule1 re_sub_rule2)

text \<open>
  C8. \<^verbatim>\<open>fix_id_parsing\<close> never raises: on every text it returns a text (and that text is
  a function of the input alone, as the definition is).
\<close>

theorem fix_id_parsing_never_raises:
  "\<exists>y. fix_id_parsing alnum x = Inr y"
  by (simp add: fix_id_parsing_def re_sub_rule1 re_sub_rule2)

text \<open>
  C9. A run of the script, completed or ended by an exception, leaves the directory
  entries as they were and the files in number and permissions: no file is created or
  deleted, no directory is created. It rewrites only files that a path selected by
  \<^verbatim>\<open>src/routes/*.ts\<close> leads to, links followed: every other file keeps its text, and so
  does every path that does not lead to such a file; only selected paths are opened for
  writing.
\<close>

theorem main_keeps_the_file_set:
  assumes "main alnum w = (w', r)"
  shows "files w' = files w \<and>
     map (apsnd skeleton) (store w') = map (apsnd skeleton) (store w) \<and>
     (\<forall>i. Some i \<notin> target (files w) ` set (glob_ts (files w)) \<longrightarrow>
          map_of (store w') i = map_of (store w) i) \<and>
     (\<forall>p. (\<forall>i. target (files w) p = Some i \<longrightarrow>
               Some i \<notin> target (files w) ` set (glob_ts (files w))) \<longrightarrow>
          read_text (files w') (store w') p = read_text (files w) (store w) p) \<and>
     (\<forall>p\<in>set (written w'). p \<in> set (written w) \<or> (in_routes_ts p \<and> p \<in> fst ` set (files w)))"
proof -
  obtain w1 r1 where l: "run_loop alnum w (glob_ts (files w)) = (w1, r1)"
    by (cases "run_loop alnum w (glob_ts (files w))")
  have w': "files w' = files w1" "store w' = store w1" "written w' = written w1"
    using assms l by (auto simp: main_def split: option.splits)
  note f = run_loop_frame [OF l]
  have 1: "files w' = files w" using f w' by simp
  have 2: "map (apsnd skeleton) (store w') = map (apsnd skeleton) (store w)" using f w' by simp
  have 3: "map_of (store w') i = map_of (store w) i"
    if "Some i \<notin> target (files w) ` set (glob_ts (files w))" for i
    using f w' that by simp
  have 4: "read_text (files w') (store w') p = read_text (files w) (store w) p"
    if "\<forall>i. target (files w) p = Some i \<longrightarrow> Some i \<notin> target (files w) ` set (glob_ts (files w))"
    for p
    unfolding 1 using that 3 by (intro read_text_cong) blast
  have 5: "\<forall>p\<in>set (written w'). p \<in> set (written w) \<or> (in_routes_ts p \<and> p \<in> fst ` set (files w))"
    using f w' glob_ts_in_routes [of _ "files w"] by auto
  show ?thesis using 1 2 3 4 5 by blast
qed

theorem main_keeps_the_file_set_witness:
  "files (fst (main (\<lambda>c. False)
       \<lparr>files = [(''src/routes'', Dir), (''src/routes/users.ts'', Link ''lib/users.ts''),
                 (''lib/users.ts'', File 1), (''src/app.ts'', File 2)],
        store = [(1, Data True True (str ''const { id } = req.params;'')),
                 (2, Data True True (str ''const { id } = req.params;''))],
        written = [], stdout = []\<rparr>)) =
     [(''src/routes'', Dir), (''src/routes/users.ts'', Link ''lib/users.ts''),
      (''lib/users.ts'', File 1), (''src/app.ts'', File 2)] \<and>
   read_text
     (files (fst (main (\<lambda>c. False)
       \<lparr>files = [(''src/routes'', Dir), (''src/routes/users.ts'', Link ''lib/users.ts''),
                 (''lib/users.ts'', File 1), (''src/app.ts'', File 2)],
        store = [(1, Data True True (str ''const { id } = req.params;'')),
                 (2, Data True True (str ''const { id } = req.params;''))],
        written = [], stdout = []\<rparr>)))
     (store (fst (main (\<lambda>c. False)
       \<lparr>files = [(''src/routes'', Dir), (''src/routes/users.ts'', Link ''lib/users.ts''),
                 (''lib/users.ts'', File 1), (''src/app.ts'', File 2)],
        store = [(1, Data True True (str ''const { id } = req.params;'')),
                 (2, Data True True (str ''const { id } = req.params;''))],
        written = [], stdout = []\<rparr>))) ''src/app.ts'' =
     Inr (str ''const { id } = req.params;'')"
proof -
  define w :: world where "w =
       \<lparr>files = [(''src/routes'', Dir), (''src/routes/users.ts'', Link ''lib/users.ts''),
                 (''lib/users.ts'', File 1), (''src/app.ts'', File 2)],
        store = [(1, Data True True (str ''const { id } = req.params;'')),
                 (2, Data True True (str ''const { id } = req.params;''))],
        written = [], stdout = []\<rparr>"
  define res where "res = main (\<lambda>c. False) w"
  have m: "main (\<lambda>c. False) w = (fst res, snd res)" by (simp add: res_def)
  have g: "target (files w) ` set (glob_ts (files w)) = {Some 1}"
    unfolding w_def by code_simp
  have t: "target (files w) ''src/app.ts'' = Some 2"
    unfolding w_def by code_simp
  have rd: "read_text (files w) (store w) ''src/app.ts'' = Inr (str ''const { id } = req.params;'')"
    unfolding w_def by code_simp
  have h: "\<forall>i. target (files w) ''src/app.ts'' = Some i \<longrightarrow>
      Some i \<notin> target (files w) ` set (glob_ts (files w))"
    unfolding g t by simp
  from main_keeps_the_file_set [OF m] h
  have "files (fst res) = files w"
    "read_text (files (fst res)) (store (fst res)) ''src/app.ts'' =
      read_text (files w) (store w) ''src/app.ts''"
    by blast+
  then show ?thesis unfolding rd by (simp add: res_def w_def)
qed

text \<open>
  A path outside the selection is not safe for that alone: where the entry
  \<^verbatim>\<open>src/routes/link.ts\<close> is a symbolic link to \<^verbatim>\<open>outside.txt\<close>, the run rewrites
  \<^verbatim>\<open>outside.txt\<close>.
\<close>

theorem main_rewrites_linked_file:
  "''outside.txt'' \<notin> set (glob_ts
       [(''src/routes'', Dir), (''src/routes/link.ts'', Link ''outside.txt''),
        (''outside.txt'', File 1)]) \<and>
   read_text
       [(''src/routes'', Dir), (''src/routes/link.ts'', Link ''outside.txt''),
        (''outside.txt'', File 1)]
       [(1, Data True True (str ''const { id } = req.params;''))] ''outside.txt'' =
     Inr (str ''const { id } = req.params;'') \<and>
   read_text
       (files (fst (main (\<lambda>c. False)
          \<lparr>files = [(''src/routes'', Dir), (''src/routes/link.ts'', Link ''outside.txt''),
                    (''outside.txt'', File 1)],
           store = [(1, Data True True (str ''const { id } = req.params;''))],
           written = [], stdout = []\<rparr>)))
       (store (fst (main (\<lambda>c. False)
          \<lparr>files = [(''src/routes'', Dir), (''src/routes/link.ts'', Link ''outside.txt''),
                    (''outside.txt'', File 1)],
           store = [(1, Data True True (str ''const { id } = req.params;''))],
           written = [], stdout = []\<rparr>))) ''outside.txt'' =
     Inr (str (''const id = parseInt(req.params.id);\<newline>'' @
       ''    if (isNaN(id)) {\<newline>'' @
       ''      return res.status(400).json({ success: false, error: '' @ [CHR 0x27] @
       ''Invalid ID'' @ [CHR 0x27] @ '' });\<newline>'' @
       ''    }''))"
  by code_simp

text \<open>
  C10. The assignment from the path parameter to a variable (word characters and
  \<^verbatim>\<open>$\<close>) whose name does not end in \<^verbatim>\<open>Id\<close> after a word character, such as
  \<^verbatim>\<open>const id = req.params.id;\<close>, is matched by neither pattern and stays as it is,
  whatever stands around it.
\<close>

theorem other_assignment_untouched:
  assumes "\<forall>c\<in>set v. is_word alnum c \<or> c = 36"
    and "\<not> (\<exists>p c. v = p @ c # str ''Id'' \<and> is_word alnum c)"
  shows "re_match pattern1 (str ''const '' @ v @ str '' = req.params.id;'' @ b) = None \<and>
     re_match (pattern2 alnum) (str ''const '' @ v @ str '' = req.params.id;'' @ b) = None \<and>
     (\<exists>a' b'. fix_id_parsing alnum a = Inr a' \<and> fix_id_parsing alnum b = Inr b' \<and>
        fix_id_parsing alnum (a @ str ''const '' @ v @ str '' = req.params.id;'' @ b) =
          Inr (a' @ str ''const '' @ v @ str '' = req.params.id;'' @ b'))"
proof -
  have v: "32 \<notin> set v" "59 \<notin> set v"
    using assms(1) is_word_ascii(3,6) [of alnum] by auto
  note n = not_rule2_name [OF assms(2)]
  have "rule1_occ ((str ''const '' @ v @ str '' = req.params.id;'') @ b) = None"
  proof (cases "rule1_occ ((str ''const '' @ v @ str '' = req.params.id;'') @ b)")
    case (Some p)
    then have "rule1_occ ([] @ (str ''const '' @ v @ str '' = req.params.id;'') @ b) =
        Some (fst p, snd p)" by simp
    then have "length ((str ''const '' @ v @ str '' = req.params.id;'') @ b) \<le> length (snd p)"
      by (rule rule1_assign_straddle [OF v(2)])
    moreover have "length (snd p) < length ((str ''const '' @ v @ str '' = req.params.id;'') @ b)"
      using Some by (intro tidy_shorter [OF tidy_rule1, of _ "fst p"]) simp
    ultimately show ?thesis by simp
  qed simp
  then have 1: "re_match pattern1 (str ''const '' @ v @ str '' = req.params.id;'' @ b) = None"
    by (simp add: rule1_occ_None)
  have 2: "re_match (pattern2 alnum) (str ''const '' @ v @ str '' = req.params.id;'' @ b) = None"
    using rule2_assign_none [OF v(1) n, of b] by (simp add: rule2_occ_None)
  have "transform alnum (a @ (str ''const '' @ v @ str '' = req.params.id;'') @ b) =
      transform alnum a @ (str ''const '' @ v @ str '' = req.params.id;'') @ transform alnum b"
    using v n by (rule transform_assignment_other)
  then show ?thesis using 1 2 by (simp add: fix_id_parsing_transform)
qed

theorem other_assignment_untouched_witness:
  "re_match pattern1 (str ''const id = req.params.id;'') = None \<and>
   re_match (pattern2 (\<lambda>c. False)) (str ''const id = req.params.id;'') = None \<and>
   fix_id_parsing (\<lambda>c. False) (str ''const id = req.params.id;'') =
     Inr (str ''const id = req.params.id;'')"
proof -
  have 1: "\<forall>c\<in>set (str ''id''). is_word (\<lambda>c. False) c \<or> c = 36"
    by (simp add: str_def is_word_def)
  have 2: "\<not> (\<exists>p c. str ''id'' = p @ c # str ''Id'' \<and> is_word (\<lambda>c. False) c)"
  proof
    assume "\<exists>p c. str ''id'' = p @ c # str ''Id'' \<and> is_word (\<lambda>c. False) c"
    then obtain p c where "str ''id'' = p @ c # str ''Id''" by blast
    then have "length (str ''id'') = length (p @ c # str ''Id'')" by simp
    then show False by (simp add: str_def)
  qed
  show ?thesis
    using other_assignment_untouched [OF 1 2, of "[]" "[]"]
    by (simp add: fix_id_parsing_Nil str_def)
qed

end
